theory Spec2Isabelle
  imports Main "HOL-Library.Word" "HOL-Library.Signed_Division"
begin

unbundle bit_operations_syntax

section \<open>Data model of \<^verbatim>\<open>cft.go\<close>\<close>

text \<open>
  Go's \<^verbatim>\<open>byte\<close>, \<^verbatim>\<open>int16\<close> and \<^verbatim>\<open>int32\<close> are machine words; arithmetic on them
  wraps around, \<^const>\<open>sint\<close> reads the two's complement value. Go's \<^verbatim>\<open>int\<close> (64 bit)
  only ever holds small non-negative loop counters here and is a \<^typ>\<open>nat\<close>.
\<close>

type_synonym byte = "8 word"
type_synonym int16 = "16 word"
type_synonym int32 = "32 word"

text \<open>The untyped constants of the \<^verbatim>\<open>const\<close> block (lines 27--32).\<close>

abbreviation (input) blockSize :: "'a::numeral" where
  "blockSize \<equiv> 512"

abbreviation (input) maxFilenameLen :: nat where
  "maxFilenameLen \<equiv> 22"

abbreviation (input) fileDescSize :: nat where
  "fileDescSize \<equiv> 32"

abbreviation (input) dirEntriesPerBlock :: nat where
  "dirEntriesPerBlock \<equiv> 16"

text \<open>
  The ways an operation can fail. \<^verbatim>\<open>listFiles\<close> returns three different
  \<^verbatim>\<open>errors.New\<close> values, told apart by their message; every out-of-range index or slice
  expression is a Go run-time panic.
  \<^item> \<open>NeitherOberonNorMSDOS\<close>: "Neither Oberon nor MSDOS formatted diskette" (line 139);
  \<^item> \<open>NoVolumeLabel\<close>: "Block 7 does not contain a valid volume label" (line 146);
  \<^item> \<open>NotOberonFormat\<close>: "Not Oberon format" (line 149);
  \<^item> \<open>Panic\<close>: run-time panic, index or slice bounds out of range.
\<close>

datatype error = NeitherOberonNorMSDOS | NoVolumeLabel | NotOberonFormat | Panic

text \<open>\<^verbatim>\<open>type fileDesc struct\<close> (lines 38--43); \<open>name\<close> is the array \<^verbatim>\<open>[22]byte\<close>.\<close>

record fileDesc =
  name :: "byte list"
  time :: int16
  date :: int16
  head :: int16
  size :: int32

text \<open>
  \<^verbatim>\<open>type floppy struct\<close> (lines 88--91). The field \<^verbatim>\<open>img\<close> is a Go slice: a window of
  \<^verbatim>\<open>len(img)\<close> elements on a backing array of \<^verbatim>\<open>cap(img)\<close> elements. \<open>img\<close> holds the
  \<^verbatim>\<open>len(img)\<close> bytes of the image and \<open>img_spare\<close> the elements of the backing array
  between \<^verbatim>\<open>len(img)\<close> and \<^verbatim>\<open>cap(img)\<close>, which a slice expression on \<^verbatim>\<open>img\<close> can
  reach (Go specification, Slice expressions: for slices, the upper index bound is the
  slice capacity \<^verbatim>\<open>cap(a)\<close> rather than the length). \<open>fat\<close> is the array
  \<^verbatim>\<open>[720]int32\<close>.
\<close>

record floppy =
  img :: "byte list"
  img_spare :: "byte list"
  fat :: "int32 list"

text \<open>
  The value of \<^verbatim>\<open>time.Date(y, m, d, hh, mm, ss, 0, loc)\<close>, kept as the calendar fields
  handed to \<^verbatim>\<open>time.Date\<close> (which only rewrites fields that are out of their range).
\<close>

record civil =
  year :: int
  month :: int
  day :: int
  hour :: int
  minute :: int
  second :: int

section \<open>fileDesc\<close>

text \<open>
  \<^verbatim>\<open>timestamp\<close> (lines 53--70). \<^verbatim>\<open>>>\<close> on an \<^verbatim>\<open>int16\<close> is the arithmetic shift, and
  \<^verbatim>\<open>>>\<close> and \<^verbatim>\<open>&\<close> have the same precedence and associate to the left.
\<close>

definition timestamp :: "fileDesc \<Rightarrow> civil" where
  "timestamp fd =
    (let y = 1900 + sint (signed_drop_bit 9 (date fd) AND 0x7f);
         m = sint (signed_drop_bit 5 (date fd) AND 0xf);
         d = sint (date fd AND 0x1f);
         hh = sint (signed_drop_bit 11 (time fd) AND 0x1f);
         mm = sint (signed_drop_bit 5 (time fd) AND 0x6f);
         ss = sint (time fd AND 0x1f) * 2
     in \<lparr>year = y, month = m, day = d, hour = hh, minute = mm, second = ss\<rparr>)"

text \<open>
  \<^verbatim>\<open>fileDescFromBytes\<close> (lines 72--82). Every index is at most \<open>base + 31\<close>, so the
  function panics exactly when \<open>buf\<close> has no element \<open>base + 31\<close>.
\<close>

definition fileDescFromBytes :: "byte list \<Rightarrow> nat \<Rightarrow> error + fileDesc" where
  "fileDescFromBytes buf ofs =
    (let base = ofs * fileDescSize in
     if base + 31 < length buf then
       Inr \<lparr>name = take maxFilenameLen (drop base buf),
            time = push_bit 8 (ucast (buf ! (base + 23))) OR ucast (buf ! (base + 22)),
            date = push_bit 8 (ucast (buf ! (base + 25))) OR ucast (buf ! (base + 24)),
            head = push_bit 8 (ucast (buf ! (base + 27))) OR ucast (buf ! (base + 26)),
            size = push_bit 24 (ucast (buf ! (base + 31))) OR push_bit 16 (ucast (buf ! (base + 30)))
                   OR push_bit 8 (ucast (buf ! (base + 29))) OR ucast (buf ! (base + 28))\<rparr>
     else Inl Panic)"

section \<open>The name of an entry\<close>

text \<open>
  \<^verbatim>\<open>nameAsString\<close> (lines 45--51): the loop that looks for the first zero byte of the
  array \<open>name\<close>, then the bytes before it (a Go string is its bytes).
\<close>

function nameAsString_loop :: "fileDesc \<Rightarrow> nat \<Rightarrow> nat" where
  "nameAsString_loop fd i =
    (if i < maxFilenameLen \<and> name fd ! i \<noteq> 0 then nameAsString_loop fd (i + 1) else i)"
  by pat_completeness auto
termination
  by (relation "measure (\<lambda>(fd, i). maxFilenameLen - i)") auto

definition nameAsString :: "fileDesc \<Rightarrow> byte list" where
  "nameAsString fd = take (nameAsString_loop fd 0) (name fd)"

section \<open>floppy\<close>

text \<open>The backing array of the slice \<^verbatim>\<open>fl.img\<close>: its \<^verbatim>\<open>cap(img)\<close> elements.\<close>

definition imgArray :: "floppy \<Rightarrow> byte list" where
  "imgArray fl = img fl @ img_spare fl"

text \<open>
  \<^verbatim>\<open>getBlocks\<close> (lines 93--96). \<open>ofs\<close> and the upper bound are computed in \<^verbatim>\<open>int32\<close>;
  the slice expression \<^verbatim>\<open>fl.img[ofs : hi]\<close> panics unless \<open>0 \<le> ofs \<le> hi \<le> cap(img)\<close>.
\<close>

definition getBlocks :: "floppy \<Rightarrow> int32 \<Rightarrow> int32 \<Rightarrow> error + byte list" where
  "getBlocks fl idx cnt =
    (let ofs = idx * blockSize;
         hi = ofs + cnt * blockSize
     in if 0 \<le> sint ofs \<and> sint ofs \<le> sint hi \<and> nat (sint hi) \<le> length (imgArray fl)
        then Inr (take (nat (sint hi) - nat (sint ofs)) (drop (nat (sint ofs)) (imgArray fl)))
        else Inl Panic)"

definition getBlock :: "floppy \<Rightarrow> int32 \<Rightarrow> error + byte list" where
  "getBlock fl idx = getBlocks fl idx 1"

text \<open>\<^verbatim>\<open>readDirBlock\<close> (lines 102--109): the \<^verbatim>\<open>for\<close> loop over \<open>i\<close>, then the method.\<close>

function readDirBlock_loop :: "byte list \<Rightarrow> nat \<Rightarrow> fileDesc list \<Rightarrow> error + fileDesc list" where
  "readDirBlock_loop buf i res =
    (if i < dirEntriesPerBlock then
       (case fileDescFromBytes buf i of
          Inl e \<Rightarrow> Inl e
        | Inr fd \<Rightarrow> readDirBlock_loop buf (i + 1) (res @ [fd]))
     else Inr res)"
  by pat_completeness auto
termination
  by (relation "measure (\<lambda>(buf, i, res). dirEntriesPerBlock - i)") auto

definition readDirBlock :: "floppy \<Rightarrow> int32 \<Rightarrow> error + fileDesc list" where
  "readDirBlock fl block =
    (case getBlock fl block of
       Inl e \<Rightarrow> Inl e
     | Inr buf \<Rightarrow> readDirBlock_loop buf 0 [])"

text \<open>
  Go's \<^verbatim>\<open>%\<close> and \<^verbatim>\<open>/\<close> on \<^verbatim>\<open>int32\<close> truncate towards zero (the divisor is the constant
  4096 wherever they are used).
\<close>

definition rem32 :: "int32 \<Rightarrow> int32 \<Rightarrow> int32" where
  "rem32 a b = word_of_int (sint a smod sint b)"

definition quo32 :: "int32 \<Rightarrow> int32 \<Rightarrow> int32" where
  "quo32 a b = word_of_int (sint a sdiv sint b)"

text \<open>
  The body of the loop of \<^verbatim>\<open>initFAT\<close> (lines 119--127): the two table entries held by
  the group of bytes \<open>b0\<close>, \<open>b1\<close>, \<open>b2\<close> (\<^verbatim>\<open>buf[j]\<close>, \<^verbatim>\<open>buf[j+1]\<close>, \<^verbatim>\<open>buf[j+2]\<close>).
\<close>

definition fatGroup :: "byte \<Rightarrow> byte \<Rightarrow> byte \<Rightarrow> int32 \<times> int32" where
  "fatGroup b0 b1 b2 =
    (let n = push_bit 16 (ucast b2) OR push_bit 8 (ucast b1) OR ucast b0;
         n0 = rem32 n 4096;
         n0 = (if 2047 < sint n0 then n0 - 4096 else n0);
         n1 = quo32 n 4096;
         n1 = (if 2047 < sint n1 then n1 - 4096 else n1)
     in (n0, n1))"

text \<open>
  The loop of \<^verbatim>\<open>initFAT\<close> (lines 118--132) on the table \<open>t\<close>; an index outside \<open>buf\<close>
  or outside the table panics.
\<close>

function initFAT_loop :: "byte list \<Rightarrow> nat \<Rightarrow> nat \<Rightarrow> int32 list \<Rightarrow> error + int32 list" where
  "initFAT_loop buf i j t =
    (if i < 720 then
       (if j + 2 < length buf \<and> i + 1 < 720 then
          (case fatGroup (buf ! j) (buf ! (j + 1)) (buf ! (j + 2)) of
             (n0, n1) \<Rightarrow> initFAT_loop buf (i + 2) (j + 3) (t[i := n0, i + 1 := n1]))
        else Inl Panic)
     else Inr t)"
  by pat_completeness auto
termination
  by (relation "measure (\<lambda>(buf, i, j, t). 720 - i)") auto

text \<open>
  \<^verbatim>\<open>initFAT\<close> (lines 111--133), the one method that writes to the floppy: it returns its
  outcome and the floppy it leaves.
\<close>

definition initFAT :: "floppy \<Rightarrow> (error + unit) \<times> floppy" where
  "initFAT fl =
    (case getBlocks fl 1 3 of
       Inl e \<Rightarrow> (Inl e, fl)
     | Inr buf \<Rightarrow>
        (case initFAT_loop buf 2 3 ((fat fl)[0 := - 1, 1 := - 1]) of
           Inl e \<Rightarrow> (Inl e, fl)
         | Inr t \<Rightarrow> (Inr (), fl\<lparr>fat := t\<rparr>)))"

text \<open>
  The loop of \<^verbatim>\<open>listFiles\<close> (lines 157--173): \<open>s\<close> is the current block, \<open>j\<close> the
  index in the current block \<open>dbuf\<close>.
\<close>

function listFiles_loop ::
  "floppy \<Rightarrow> fileDesc list \<Rightarrow> int32 \<Rightarrow> nat \<Rightarrow> fileDesc list \<Rightarrow> error + fileDesc list" where
  "listFiles_loop fl dbuf s j res =
    (if j < length dbuf then
       (if name (dbuf ! j) ! 0 = 0 \<or> name (dbuf ! j) ! 0 = 0xe5 then Inr res
        else if j + 1 = dirEntriesPerBlock then
          (if s + 1 = 14 then Inr (res @ [dbuf ! j])
           else
             (case readDirBlock fl (s + 1) of
                Inl e \<Rightarrow> Inl e
              | Inr dbuf' \<Rightarrow> listFiles_loop fl dbuf' (s + 1) 0 (res @ [dbuf ! j])))
        else listFiles_loop fl dbuf s (j + 1) (res @ [dbuf ! j]))
     else Inl Panic)"
  by pat_completeness auto
termination
proof (relation "measures [\<lambda>(fl, dbuf, s, j, res). unat (13 - s),
                            \<lambda>(fl, dbuf, s, j, res). length dbuf - j]")
  show "wf (measures [\<lambda>(fl, dbuf, s, j, res). unat (13 - s),
                      \<lambda>(fl, dbuf, s, j, res). length dbuf - j])"
    by simp
next
  fix fl :: floppy and dbuf :: "fileDesc list" and s :: int32 and j :: nat
    and res :: "fileDesc list" and x2 :: "fileDesc list"
  assume "s + 1 \<noteq> 14"
  then have "13 - s \<noteq> 0"
    by auto
  moreover have "w \<noteq> 0 \<Longrightarrow> unat (w - 1) < unat w" for w :: int32
    by (simp add: unat_minus_one unat_gt_0)
  ultimately have "unat (13 - s - 1) < unat (13 - s)"
    by blast
  moreover have "13 - (s + 1) = 13 - s - 1"
    by simp
  ultimately show "((fl, x2, s + 1, 0, res @ [dbuf ! j]), fl, dbuf, s, j, res)
      \<in> measures [\<lambda>(fl, dbuf, s, j, res). unat (13 - s),
                   \<lambda>(fl, dbuf, s, j, res). length dbuf - j]"
    by simp
next
  fix fl :: floppy and dbuf :: "fileDesc list" and s :: int32 and j :: nat
    and res :: "fileDesc list"
  assume "j < length dbuf"
  then show "((fl, dbuf, s, j + 1, res @ [dbuf ! j]), fl, dbuf, s, j, res)
      \<in> measures [\<lambda>(fl, dbuf, s, j, res). unat (13 - s),
                   \<lambda>(fl, dbuf, s, j, res). length dbuf - j]"
    by simp
qed

text \<open>
  \<^verbatim>\<open>listFiles\<close> (lines 135--176). The method has a pointer receiver, so it is given
  as a function from the floppy to its outcome and the floppy it leaves. The slice
  indices \<^verbatim>\<open>buf[21]\<close> and \<^verbatim>\<open>dbuf[0]\<close> are guarded like every other index (\<open>buf\<close> has
  512 elements and \<open>dbuf\<close> 16 whenever they exist); \<open>name\<close> is an array of 22 bytes
  indexed by the constants 11 and 0, which Go checks at compile time.
\<close>

definition listFiles :: "floppy \<Rightarrow> (error + fileDesc list) \<times> floppy" where
  "listFiles fl =
    (case getBlock fl 0 of
       Inl e \<Rightarrow> (Inl e, fl)
     | Inr buf \<Rightarrow>
        if \<not> 21 < length buf then (Inl Panic, fl)
        else if buf ! 21 \<noteq> 0xf9 \<and> buf ! 21 \<noteq> 0xe9 then (Inl NeitherOberonNorMSDOS, fl)
        else
          (case readDirBlock fl 7 of
             Inl e \<Rightarrow> (Inl e, fl)
           | Inr dbuf \<Rightarrow>
              if \<not> 0 < length dbuf then (Inl Panic, fl)
              else
                (let fd = dbuf ! 0 in
                 if name fd ! 11 \<noteq> 8 then (Inl NoVolumeLabel, fl)
                 else if name fd ! 0 < 0xe5 \<and> name fd ! 0 \<noteq> 0 then (Inl NotOberonFormat, fl)
                 else (listFiles_loop fl dbuf 7 1 [], fl))))"

text \<open>
  \<^verbatim>\<open>fl.fat[i]\<close> with an \<^verbatim>\<open>int32\<close> index into the array \<^verbatim>\<open>[720]int32\<close>.
\<close>

definition fatAt :: "floppy \<Rightarrow> int32 \<Rightarrow> error + int32" where
  "fatAt fl i =
    (if 0 \<le> sint i \<and> sint i < 720 then Inr (fat fl ! nat (sint i)) else Inl Panic)"

text \<open>
  The loop of \<^verbatim>\<open>readFile\<close> (lines 189--194) and the statement after it (line 195).
  The slice expression \<^verbatim>\<open>buf[0:remaining]\<close> panics when \<open>remaining\<close> is negative or
  beyond \<open>buf\<close>.
\<close>

function readFile_loop ::
  "floppy \<Rightarrow> byte list \<Rightarrow> int32 \<Rightarrow> int32 \<Rightarrow> byte list \<Rightarrow> error + byte list" where
  "readFile_loop fl res remaining i buf =
    (if 1024 < sint remaining then
       (case fatAt fl i of
          Inl e \<Rightarrow> Inl e
        | Inr i' \<Rightarrow>
           (case getBlocks fl (10 + 2 * i') 2 of
              Inl e \<Rightarrow> Inl e
            | Inr buf' \<Rightarrow> readFile_loop fl (res @ buf) (remaining - 1024) i' buf'))
     else if 0 \<le> sint remaining \<and> nat (sint remaining) \<le> length buf
       then Inr (res @ take (nat (sint remaining)) buf)
       else Inl Panic)"
  by pat_completeness auto
termination
proof (relation "measure (\<lambda>(fl, res, remaining, i, buf). nat (sint remaining))")
  show "wf (measure (\<lambda>(fl, res, remaining, i, buf). nat (sint remaining)))"
    by simp
next
  fix fl :: floppy and res :: "byte list" and remaining :: int32 and i :: int32
    and buf :: "byte list" and x2 :: int32 and x2a :: "byte list"
  assume big: "1024 < sint remaining"
  have "sint remaining < 2 ^ 31"
    using sint_lt [of remaining] by simp
  with big have "sint (remaining - 1024) = sint remaining - 1024"
    by (simp add: sint_word_ariths signed_take_bit_int_eq_self)
  with big show "((fl, res @ buf, remaining - 1024, x2, x2a), fl, res, remaining, i, buf)
      \<in> measure (\<lambda>(fl, res, remaining, i, buf). nat (sint remaining))"
    by simp
qed

text \<open>\<^verbatim>\<open>readFile\<close> (lines 178--198), with the floppy it leaves.\<close>

definition readFile :: "floppy \<Rightarrow> fileDesc \<Rightarrow> (error + byte list) \<times> floppy" where
  "readFile fl fd =
    (let remaining = size fd in
     if remaining = 0 then (Inr [], fl)
     else
       (let i = scast (head fd) in
        case getBlocks fl (10 + 2 * i) 2 of
          Inl e \<Rightarrow> (Inl e, fl)
        | Inr buf \<Rightarrow> (readFile_loop fl [] remaining i buf, fl)))"

section \<open>Packing a group of the allocation table\<close>

text \<open>
  Modelled from the spec: the program only reads images and has no encoder for the
  allocation table. \<open>packGroup a b\<close> is the 3-byte group of the spec's round-trip property
  (sections 4.2 and 8): the 24-bit value with the 12-bit two's complement of \<open>a\<close> in its low
  12 bits and that of \<open>b\<close> in its high 12 bits, stored little-endian.
\<close>

definition packGroup :: "int \<Rightarrow> int \<Rightarrow> byte \<times> byte \<times> byte" where
  "packGroup a b =
    (let g = a mod 4096 + 4096 * (b mod 4096)
     in (word_of_int (g mod 256), word_of_int (g div 256 mod 256), word_of_int (g div 65536)))"

section \<open>Observing the chain walk of readFile\<close>

text \<open>
  The number of allocation units \<^verbatim>\<open>readFile\<close> asks \<^verbatim>\<open>getBlocks\<close> for: the control flow of
  \<^verbatim>\<open>readFile\<close> and of its loop (lines 182--195), counting the calls
  \<^verbatim>\<open>fl.getBlocks(10+2*i, 2)\<close> instead of collecting their bytes. A call that panics is
  counted, and ends the walk.
\<close>

function readFile_loop_units :: "floppy \<Rightarrow> int32 \<Rightarrow> int32 \<Rightarrow> nat" where
  "readFile_loop_units fl remaining i =
    (if 1024 < sint remaining then
       (case fatAt fl i of
          Inl e \<Rightarrow> 0
        | Inr i' \<Rightarrow>
           (case getBlocks fl (10 + 2 * i') 2 of
              Inl e \<Rightarrow> 1
            | Inr buf' \<Rightarrow> 1 + readFile_loop_units fl (remaining - 1024) i'))
     else 0)"
  by pat_completeness auto
termination
proof (relation "measure (\<lambda>(fl, remaining, i). nat (sint remaining))")
  show "wf (measure (\<lambda>(fl, remaining, i). nat (sint remaining)))"
    by simp
next
  fix fl :: floppy and remaining :: int32 and i :: int32 and x2 :: int32 and x2a :: "byte list"
  assume big: "1024 < sint remaining"
  have "sint remaining < 2 ^ 31"
    using sint_lt [of remaining] by simp
  with big have "sint (remaining - 1024) = sint remaining - 1024"
    by (simp add: sint_word_ariths signed_take_bit_int_eq_self)
  with big show "((fl, remaining - 1024, x2), fl, remaining, i)
      \<in> measure (\<lambda>(fl, remaining, i). nat (sint remaining))"
    by simp
qed

definition readFile_units :: "floppy \<Rightarrow> fileDesc \<Rightarrow> nat" where
  "readFile_units fl fd =
    (let remaining = size fd in
     if remaining = 0 then 0
     else
       (let i = scast (head fd) in
        case getBlocks fl (10 + 2 * i) 2 of
          Inl e \<Rightarrow> 1
        | Inr buf \<Rightarrow> 1 + readFile_loop_units fl remaining i))"

text \<open>
  The first \<open>n\<close> allocation units of the chain that starts at unit \<open>i\<close> lie within the
  image: the two blocks of each unit can be read, and each unit but the last is an index
  of the table, whose entry is the next unit.
\<close>

primrec chainWithin :: "floppy \<Rightarrow> nat \<Rightarrow> int32 \<Rightarrow> bool" where
  "chainWithin fl 0 i = True"
| "chainWithin fl (Suc n) i =
    (\<not> isl (getBlocks fl (10 + 2 * i) 2)
     \<and> (n = 0 \<or> 0 \<le> sint i \<and> sint i < 720 \<and> chainWithin fl n (fat fl ! nat (sint i))))"

section \<open>The directory region as a sequence of records\<close>

text \<open>
  The test that ends the enumeration of \<^verbatim>\<open>listFiles\<close> (line 158): the first name byte
  is 0 or the deleted-entry marker.
\<close>

definition isTerminator :: "fileDesc \<Rightarrow> bool" where
  "isTerminator fd = (name fd ! 0 = 0 \<or> name fd ! 0 = 0xe5)"

text \<open>
  The 32-byte record in slot \<open>n\<close> of the directory region, the slots counted in on-disk
  order from the first slot of block 7 (byte \<open>7 * 512 = 3584\<close> of the image), as
  \<^verbatim>\<open>fileDescFromBytes\<close> decodes it. The listing of \<^verbatim>\<open>listFiles\<close> is compared with this
  sequence.
\<close>

definition dirSlot :: "floppy \<Rightarrow> nat \<Rightarrow> fileDesc" where
  "dirSlot fl n = projr (fileDescFromBytes (drop (7 * blockSize) (imgArray fl)) n)"

section \<open>The image of the end-to-end scenario\<close>

text \<open>
  The minimal crafted image of the spec's end-to-end scenario (section 8), 12 blocks
  long: media descriptor \<open>0xF9\<close> at byte 21 of block 0; in block 7 a volume label in
  slot 0 (attribute marker 8 at byte 11 of the record) and in slot 1 the record of a file
  named \<^verbatim>\<open>TEST.TXT\<close> with \<open>head = 0\<close> and \<open>size = 5\<close>; the five bytes \<^verbatim>\<open>hello\<close> at the
  start of block 10, the first block of allocation unit 0.
\<close>

definition scenarioImage :: "byte list" where
  "scenarioImage =
     replicate 21 0 @ [0xf9] @ replicate 3573 0 @ [8] @ replicate 20 0
     @ [0x54, 0x45, 0x53, 0x54, 0x2e, 0x54, 0x58, 0x54] @ replicate 20 0 @ [5]
     @ replicate 1475 0 @ [0x68, 0x65, 0x6c, 0x6c, 0x6f] @ replicate 1019 0"

section \<open>The bytes of a chain\<close>

text \<open>
  The content of the first \<open>n\<close> allocation units of the chain that starts at unit \<open>i\<close>:
  the 1024 bytes of each unit (blocks \<open>10 + 2 * i\<close> and \<open>10 + 2 * i + 1\<close>), one unit after
  the other, the next unit being entry \<open>i\<close> of the table. The result of \<^verbatim>\<open>readFile\<close> is
  compared with this sequence.
\<close>

primrec chainBytes :: "floppy \<Rightarrow> nat \<Rightarrow> int32 \<Rightarrow> byte list" where
  "chainBytes fl 0 i = []"
| "chainBytes fl (Suc n) i =
    projr (getBlocks fl (10 + 2 * i) 2) @ chainBytes fl n (fat fl ! nat (sint i))"

section \<open>Machine arithmetic and block access\<close>

declare readDirBlock_loop.simps [simp del]
declare initFAT_loop.simps [simp del]
declare listFiles_loop.simps [simp del]
declare readFile_loop.simps [simp del]
declare readFile_loop_units.simps [simp del]
declare nameAsString_loop.simps [simp del]

lemma sint_add_nowrap:
  fixes a c :: int32
  assumes "0 \<le> sint a" "0 \<le> sint c" "sint a \<le> sint (a + c)"
  shows "sint (a + c) = sint a + sint c"
proof -
  have la: "sint a < 2 ^ 31" and lc: "sint c < 2 ^ 31"
    using sint_lt [of a] sint_lt [of c] by simp_all
  have eq: "sint (a + c) = signed_take_bit 31 (sint a + sint c)"
    by (simp add: sint_word_ariths)
  show ?thesis
  proof (cases "sint a + sint c < 2 ^ 31")
    case True
    with assms show ?thesis
      unfolding eq by (simp add: signed_take_bit_int_eq_self)
  next
    case False
    then have "signed_take_bit 31 (sint a + sint c) \<le> sint a + sint c - 2 ^ Suc 31"
      by (intro signed_take_bit_int_less_eq) simp
    with assms la lc eq show ?thesis by simp
  qed
qed

lemma getBlocks_Inl: "getBlocks fl idx cnt = Inl e \<Longrightarrow> e = Panic"
  by (auto simp: getBlocks_def Let_def split: if_splits)

section \<open>Timestamps\<close>

lemma timestamp_example_value:
  "timestamp \<lparr>name = replicate 22 0, time = push_bit 11 10 OR push_bit 5 30 OR 21,
      date = push_bit 9 23 OR push_bit 5 6 OR 15, head = 0, size = 0\<rparr>
   = \<lparr>year = 1923, month = 6, day = 15, hour = 10, minute = 14, second = 42\<rparr>"
  by (simp add: timestamp_def)

text \<open>
  C4, as stated: the entry with date bits \<open>y = 23\<close>, \<open>m = 6\<close>, \<open>d = 15\<close> and time bits
  \<open>hh = 10\<close>, \<open>mm = 30\<close>, \<open>ss_raw = 21\<close> decodes to 2023-06-15 10:30:42. It does not:
  \<^verbatim>\<open>timestamp\<close> adds the year bits to 1900, which gives 1923, and masks the minute bits
  with \<^verbatim>\<open>0x6f\<close>, which gives 14.
\<close>

theorem timestamp_2023_counterexample:
  "timestamp \<lparr>name = replicate 22 0, time = push_bit 11 10 OR push_bit 5 30 OR 21,
      date = push_bit 9 23 OR push_bit 5 6 OR 15, head = 0, size = 0\<rparr>
   \<noteq> \<lparr>year = 2023, month = 6, day = 15, hour = 10, minute = 30, second = 42\<rparr>"
  by (simp add: timestamp_def)

text \<open>
  C4, amended: for every directory entry whose packed date holds \<open>y = 23\<close>, \<open>m = 6\<close>,
  \<open>d = 15\<close> and whose packed time holds \<open>hh = 10\<close>, \<open>mm = 30\<close>, \<open>ss_raw = 21\<close>,
  \<^verbatim>\<open>timestamp\<close> yields year \<open>1900 + 23 = 1923\<close>, month 6, day 15, hour 10 and second
  \<open>2 * 21 = 42\<close>. (Nothing is stated about the minute.)
\<close>

theorem timestamp_example:
  "year (timestamp (fd\<lparr>date := push_bit 9 23 OR push_bit 5 6 OR 15,
                       time := push_bit 11 10 OR push_bit 5 30 OR 21\<rparr>)) = 1923
   \<and> month (timestamp (fd\<lparr>date := push_bit 9 23 OR push_bit 5 6 OR 15,
                       time := push_bit 11 10 OR push_bit 5 30 OR 21\<rparr>)) = 6
   \<and> day (timestamp (fd\<lparr>date := push_bit 9 23 OR push_bit 5 6 OR 15,
                       time := push_bit 11 10 OR push_bit 5 30 OR 21\<rparr>)) = 15
   \<and> hour (timestamp (fd\<lparr>date := push_bit 9 23 OR push_bit 5 6 OR 15,
                       time := push_bit 11 10 OR push_bit 5 30 OR 21\<rparr>)) = 10
   \<and> second (timestamp (fd\<lparr>date := push_bit 9 23 OR push_bit 5 6 OR 15,
                       time := push_bit 11 10 OR push_bit 5 30 OR 21\<rparr>)) = 42"
  by (simp add: timestamp_def)

lemma getBlocks_Inr:
  assumes "getBlocks fl idx cnt = Inr buf" and "0 \<le> sint (cnt * 512)"
  shows "length buf = nat (sint (cnt * 512))"
    and "buf = take (nat (sint (cnt * 512))) (drop (nat (sint (idx * 512))) (imgArray fl))"
    and "0 \<le> sint (idx * 512)"
    and "nat (sint (idx * 512)) + nat (sint (cnt * 512)) \<le> length (imgArray fl)"
proof -
  from assms have a: "0 \<le> sint (idx * 512)" "sint (idx * 512) \<le> sint (idx * 512 + cnt * 512)"
    and b: "nat (sint (idx * 512 + cnt * 512)) \<le> length (imgArray fl)"
    and c: "buf = take (nat (sint (idx * 512 + cnt * 512)) - nat (sint (idx * 512)))
                   (drop (nat (sint (idx * 512))) (imgArray fl))"
    by (auto simp: getBlocks_def Let_def split: if_splits)
  have s: "sint (idx * 512 + cnt * 512) = sint (idx * 512) + sint (cnt * 512)"
    using a assms(2) by (intro sint_add_nowrap) simp_all
  with a assms(2) have d: "nat (sint (idx * 512 + cnt * 512)) - nat (sint (idx * 512)) = nat (sint (cnt * 512))"
    by simp
  from c d show "buf = take (nat (sint (cnt * 512))) (drop (nat (sint (idx * 512))) (imgArray fl))"
    by simp
  from b s a assms(2) show "nat (sint (idx * 512)) + nat (sint (cnt * 512)) \<le> length (imgArray fl)"
    by (simp add: nat_add_distrib)
  then show "length buf = nat (sint (cnt * 512))"
    unfolding c d by (auto simp: min_def)
  show "0 \<le> sint (idx * 512)" by fact
qed

lemma getBlock_length: "getBlock fl idx = Inr buf \<Longrightarrow> length buf = 512"
  using getBlocks_Inr(1) [of fl idx 1 buf] by (simp add: getBlock_def)

lemma getBlocks_2_length: "getBlocks fl idx 2 = Inr buf \<Longrightarrow> length buf = 1024"
  using getBlocks_Inr(1) [of fl idx 2 buf] by simp

lemma getBlocks_3_length: "getBlocks fl idx 3 = Inr buf \<Longrightarrow> length buf = 1536"
  using getBlocks_Inr(1) [of fl idx 3 buf] by simp

lemma fileDescFromBytes_Inl: "fileDescFromBytes buf k = Inl e \<Longrightarrow> e = Panic"
  by (auto simp: fileDescFromBytes_def Let_def split: if_splits)

lemma readDirBlock_loop_closed:
  "i \<le> 16 \<Longrightarrow> readDirBlock_loop buf i res =
     (if \<forall>k\<in>{i..<16}. k * 32 + 31 < length buf
      then Inr (res @ map (\<lambda>k. projr (fileDescFromBytes buf k)) [i..<16])
      else Inl Panic)"
proof (induction buf i res rule: readDirBlock_loop.induct)
  case (1 buf i res)
  show ?case
  proof (cases "i < 16")
    case False
    with "1.prems" show ?thesis
      by (subst readDirBlock_loop.simps) simp
  next
    case True
    show ?thesis
    proof (cases "i * 32 + 31 < length buf")
      case False
      with True have "\<not> (\<forall>k\<in>{i..<16}. k * 32 + 31 < length buf)" by auto
      with True False show ?thesis
        by (subst readDirBlock_loop.simps) (simp add: fileDescFromBytes_def)
    next
      case ok: True
      then obtain fd where fd: "fileDescFromBytes buf i = Inr fd"
        by (simp add: fileDescFromBytes_def Let_def)
      have split: "(\<forall>k\<in>{i..<16}. k * 32 + 31 < length buf) = (\<forall>k\<in>{i + 1..<16}. k * 32 + 31 < length buf)"
      proof -
        have "{i..<16} = insert i {i + 1..<16}"
          using True by auto
        with ok show ?thesis by simp
      qed
      have up: "[i..<16] = i # [i + 1..<16]"
        using True by (simp add: upt_conv_Cons)
      from True fd "1.IH" [OF True fd] have "readDirBlock_loop buf i res =
         (if \<forall>k\<in>{i + 1..<16}. k * 32 + 31 < length buf
          then Inr ((res @ [fd]) @ map (\<lambda>k. projr (fileDescFromBytes buf k)) [i + 1..<16])
          else Inl Panic)"
        by (subst readDirBlock_loop.simps) simp
      then show ?thesis
        unfolding split up using fd by simp
    qed
  qed
qed

section \<open>Directory blocks\<close>

lemma imgArray_nth: "k < length (img fl) \<Longrightarrow> imgArray fl ! k = img fl ! k"
  by (simp add: imgArray_def nth_append)

lemma getBlock_numeral:
  assumes "sint (numeral b * 512 :: int32) = int n" "sint (numeral b * 512 + 512 :: int32) = int n + 512"
    and "n + 512 \<le> length (imgArray fl)"
  shows "getBlock fl (numeral b) = Inr (take 512 (drop n (imgArray fl)))"
  using assms by (simp add: getBlock_def getBlocks_def Let_def nat_add_distrib)

lemma getBlock_0: "512 \<le> length (imgArray fl) \<Longrightarrow> getBlock fl 0 = Inr (take 512 (imgArray fl))"
  by (simp add: getBlock_def getBlocks_def)

lemma getBlock_0_Inr: "getBlock fl 0 = Inr buf \<Longrightarrow> 512 \<le> length (imgArray fl) \<and> buf = take 512 (imgArray fl)"
  by (auto simp add: getBlock_def getBlocks_def split: if_splits)

lemma getBlock_7: "4096 \<le> length (imgArray fl) \<Longrightarrow> getBlock fl 7 = Inr (take 512 (drop 3584 (imgArray fl)))"
  by (rule getBlock_numeral) simp_all

lemma readDirBlock_Inl: "readDirBlock fl b = Inl e \<Longrightarrow> e = Panic"
  by (auto simp: readDirBlock_def readDirBlock_loop_closed getBlock_def
      simp del: upt.simps dest: getBlocks_Inl split: sum.splits if_splits)

lemma readDirBlock_eq:
  assumes "getBlock fl b = Inr buf"
  shows "readDirBlock fl b = Inr (map (\<lambda>k. projr (fileDescFromBytes buf k)) [0..<16])"
proof -
  have "length buf = 512" using assms by (rule getBlock_length)
  then have "\<forall>k\<in>{0..<16}. k * 32 + 31 < length buf" by auto
  with assms show ?thesis
    by (simp add: readDirBlock_def readDirBlock_loop_closed del: upt.simps)
qed

lemma readDirBlock_Inr:
  assumes "readDirBlock fl b = Inr dbuf"
  obtains buf where "getBlock fl b = Inr buf" "length buf = 512"
    "dbuf = map (\<lambda>k. projr (fileDescFromBytes buf k)) [0..<16]"
proof (cases "getBlock fl b")
  case (Inl e)
  with assms show ?thesis by (simp add: readDirBlock_def)
next
  case (Inr buf)
  with assms readDirBlock_eq [OF Inr] getBlock_length [OF Inr] that show ?thesis by simp
qed

lemma readDirBlock_length: "readDirBlock fl b = Inr dbuf \<Longrightarrow> length dbuf = 16"
  by (erule readDirBlock_Inr) simp

lemma fileDescFromBytes_name:
  assumes "length buf = 512" "i < 16" "k < 22"
  shows "name (projr (fileDescFromBytes buf i)) ! k = buf ! (i * 32 + k)"
  using assms by (simp add: fileDescFromBytes_def Let_def)

lemma listFiles_loop_Inl: "listFiles_loop fl dbuf s j res = Inl e \<Longrightarrow> e = Panic"
proof (induction fl dbuf s j res rule: listFiles_loop.induct)
  case (1 fl dbuf s j res)
  show ?case
  proof (cases "j < length dbuf \<and> \<not> (name (dbuf ! j) ! 0 = 0 \<or> name (dbuf ! j) ! 0 = 0xe5)")
    case False
    with "1.prems" show ?thesis
      by (subst (asm) listFiles_loop.simps) (auto split: if_splits)
  next
    case live: True
    show ?thesis
    proof (cases "j + 1 = 16")
      case False
      with live "1.prems" have "listFiles_loop fl dbuf s (j + 1) (res @ [dbuf ! j]) = Inl e"
        by (subst (asm) listFiles_loop.simps) simp
      with live False show ?thesis
        by (intro "1.IH"(2)) simp_all
    next
      case last: True
      show ?thesis
      proof (cases "s + 1 = 14")
        case True
        with live last "1.prems" show ?thesis
          by (subst (asm) listFiles_loop.simps) simp
      next
        case False
        show ?thesis
        proof (cases "readDirBlock fl (s + 1)")
          case (Inl e')
          with live last False "1.prems" have "e = e'"
            by (subst (asm) listFiles_loop.simps) simp
          with Inl show ?thesis by (simp add: readDirBlock_Inl)
        next
          case (Inr dbuf')
          with live last False "1.prems"
          have "listFiles_loop fl dbuf' (s + 1) 0 (res @ [dbuf ! j]) = Inl e"
            by (subst (asm) listFiles_loop.simps) simp
          with live last False Inr show ?thesis
            by (intro "1.IH"(1)) simp_all
        qed
      qed
    qed
  qed
qed

section \<open>Header and volume label checks of listFiles\<close>

lemma listFiles_header:
  assumes "512 \<le> length (imgArray fl)"
  shows "fst (listFiles fl) = Inl NeitherOberonNorMSDOS
     \<longleftrightarrow> imgArray fl ! 21 \<noteq> 0xf9 \<and> imgArray fl ! 21 \<noteq> 0xe9"
proof -
  have b: "getBlock fl 0 = Inr (take 512 (imgArray fl))"
    using assms by (rule getBlock_0)
  have l: "listFiles_loop fl dbuf 7 1 [] \<noteq> Inl NeitherOberonNorMSDOS" for dbuf
    using listFiles_loop_Inl [of fl dbuf 7 1 "[]" NeitherOberonNorMSDOS] by auto
  have r: "readDirBlock fl 7 \<noteq> Inl NeitherOberonNorMSDOS"
    using readDirBlock_Inl [of fl 7 NeitherOberonNorMSDOS] by auto
  show ?thesis
    using assms l r by (auto simp: listFiles_def b Let_def split: sum.splits)
qed

text \<open>
  C5: for every image that has a block 0, if the byte at offset 21 of block 0 (the media
  descriptor) is neither \<open>0xF9\<close> nor \<open>0xE9\<close>, \<^verbatim>\<open>listFiles\<close> fails with "Neither
  Oberon nor MSDOS formatted diskette" (the spec's \<open>UnsupportedFormat\<close>); if it is one of
  the two, \<^verbatim>\<open>listFiles\<close> does not fail with that error, whatever else it does. Block 0
  is read through the slice \<^verbatim>\<open>fl.img\<close>, so it exists when the backing array has 512
  elements, and byte 21 of it is byte 21 of the image (\<open>imgArray_nth\<close>).
\<close>

theorem listFiles_media_descriptor:
  assumes "512 \<le> length (imgArray fl)"
  shows "(imgArray fl ! 21 \<noteq> 0xf9 \<and> imgArray fl ! 21 \<noteq> 0xe9
            \<longrightarrow> fst (listFiles fl) = Inl NeitherOberonNorMSDOS)
       \<and> (imgArray fl ! 21 = 0xf9 \<or> imgArray fl ! 21 = 0xe9
            \<longrightarrow> fst (listFiles fl) \<noteq> Inl NeitherOberonNorMSDOS)"
  using listFiles_header [OF assms] by auto

theorem listFiles_media_descriptor_witness:
  "512 \<le> length (imgArray \<lparr>img = replicate 512 0, img_spare = [], fat = replicate 720 0\<rparr>)
   \<and> imgArray \<lparr>img = replicate 512 0, img_spare = [], fat = replicate 720 0\<rparr> ! 21 \<noteq> 0xf9
   \<and> imgArray \<lparr>img = replicate 512 0, img_spare = [], fat = replicate 720 0\<rparr> ! 21 \<noteq> 0xe9
   \<and> fst (listFiles \<lparr>img = replicate 512 0, img_spare = [], fat = replicate 720 0\<rparr>)
       = Inl NeitherOberonNorMSDOS
   \<and> 512 \<le> length (imgArray \<lparr>img = (replicate 512 0)[21 := 0xf9], img_spare = [], fat = replicate 720 0\<rparr>)
   \<and> imgArray \<lparr>img = (replicate 512 0)[21 := 0xf9], img_spare = [], fat = replicate 720 0\<rparr> ! 21 = 0xf9
   \<and> fst (listFiles \<lparr>img = (replicate 512 0)[21 := 0xf9], img_spare = [], fat = replicate 720 0\<rparr>)
       \<noteq> Inl NeitherOberonNorMSDOS"
  using listFiles_media_descriptor [of "\<lparr>img = replicate 512 0, img_spare = [], fat = replicate 720 0\<rparr>"]
    listFiles_media_descriptor [of "\<lparr>img = (replicate 512 0)[21 := 0xf9], img_spare = [], fat = replicate 720 0\<rparr>"]
  by (simp add: imgArray_def)

lemma listFiles_label:
  assumes "4096 \<le> length (imgArray fl)"
    and "imgArray fl ! 21 = 0xf9 \<or> imgArray fl ! 21 = 0xe9"
    and "imgArray fl ! 3595 = 8"
  shows "\<exists>dbuf. readDirBlock fl 7 = Inr dbuf \<and>
      fst (listFiles fl) =
        (if imgArray fl ! 3584 < 0xe5 \<and> imgArray fl ! 3584 \<noteq> 0 then Inl NotOberonFormat
         else listFiles_loop fl dbuf 7 1 [])"
proof -
  have b0: "getBlock fl 0 = Inr (take 512 (imgArray fl))"
    using assms(1) by (intro getBlock_0) simp
  have b7: "getBlock fl 7 = Inr (take 512 (drop 3584 (imgArray fl)))"
    using assms(1) by (rule getBlock_7)
  define buf where "buf = take 512 (drop 3584 (imgArray fl))"
  define dbuf where "dbuf = map (\<lambda>k. projr (fileDescFromBytes buf k)) [0..<16]"
  have len: "length buf = 512"
    using assms(1) by (simp add: buf_def)
  have r: "readDirBlock fl 7 = Inr dbuf"
    unfolding dbuf_def buf_def by (rule readDirBlock_eq) (rule b7)
  have d0: "dbuf ! 0 = projr (fileDescFromBytes buf 0)"
    by (simp add: dbuf_def upt_conv_Cons)
  have n: "name (dbuf ! 0) ! k = imgArray fl ! (3584 + k)" if "k < 22" for k
    using that assms(1) fileDescFromBytes_name [OF len, of 0 k] by (simp add: d0 buf_def)
  have l: "0 < length dbuf"
    by (simp add: dbuf_def)
  have l21: "21 < length (imgArray fl)"
    using assms(1) by simp
  show ?thesis
    using assms(2,3) n [of 0] n [of 11] l l21
    by (intro exI [of _ dbuf]) (auto simp add: r listFiles_def b0 Let_def)
qed


text \<open>
  C1, as stated: once the attribute marker is verified, a first name byte that is 0 or
  below \<open>0xE5\<close> passes and every other value fails. The code has the comparison the
  other way round: on the image below the first name byte of the label is \<open>0x41\<close>,
  which is below \<open>0xE5\<close>, and \<^verbatim>\<open>listFiles\<close> fails with "Not Oberon format".
\<close>

theorem listFiles_label_below_e5_counterexample:
  "imgArray \<lparr>img = (replicate 4096 0)[21 := 0xf9, 3584 := 0x41, 3595 := 8], img_spare = [],
             fat = replicate 720 0\<rparr> ! 3595 = 8
   \<and> imgArray \<lparr>img = (replicate 4096 0)[21 := 0xf9, 3584 := 0x41, 3595 := 8], img_spare = [],
             fat = replicate 720 0\<rparr> ! 3584 < 0xe5
   \<and> fst (listFiles \<lparr>img = (replicate 4096 0)[21 := 0xf9, 3584 := 0x41, 3595 := 8],
             img_spare = [], fat = replicate 720 0\<rparr>) = Inl NotOberonFormat"
  using listFiles_label [of "\<lparr>img = (replicate 4096 0)[21 := 0xf9, 3584 := 0x41, 3595 := 8],
             img_spare = [], fat = replicate 720 0\<rparr>"]
  by (simp add: imgArray_def)

text \<open>
  C1, amended: in \<^verbatim>\<open>listFiles\<close>, after the media descriptor and the volume-label
  attribute marker (byte 11 of the first record of block 7 equal to 8) have been
  verified, if the first byte of the label's name field is 0 or is at least the
  deleted-entry marker value \<open>0xE5\<close> the check passes and \<^verbatim>\<open>listFiles\<close> goes on to the
  enumeration, whose outcome is its outcome and is never "Not Oberon format"; for every
  other value of that byte (1 to \<open>0xE4\<close>) \<^verbatim>\<open>listFiles\<close> fails with "Not Oberon format".
\<close>

theorem listFiles_label_check:
  assumes "4096 \<le> length (imgArray fl)"
    and "imgArray fl ! 21 = 0xf9 \<or> imgArray fl ! 21 = 0xe9"
    and "imgArray fl ! 3595 = 8"
  shows "(imgArray fl ! 3584 = 0 \<or> 0xe5 \<le> imgArray fl ! 3584 \<longrightarrow>
            (\<exists>dbuf. readDirBlock fl 7 = Inr dbuf \<and> fst (listFiles fl) = listFiles_loop fl dbuf 7 1 [])
            \<and> fst (listFiles fl) \<noteq> Inl NotOberonFormat)
       \<and> (imgArray fl ! 3584 \<noteq> 0 \<and> imgArray fl ! 3584 < 0xe5 \<longrightarrow>
            fst (listFiles fl) = Inl NotOberonFormat)"
proof -
  from listFiles_label [OF assms] obtain dbuf where r: "readDirBlock fl 7 = Inr dbuf"
    and l: "fst (listFiles fl) =
        (if imgArray fl ! 3584 < 0xe5 \<and> imgArray fl ! 3584 \<noteq> 0 then Inl NotOberonFormat
         else listFiles_loop fl dbuf 7 1 [])"
    by blast
  have "listFiles_loop fl dbuf 7 1 [] \<noteq> Inl NotOberonFormat"
    using listFiles_loop_Inl [of fl dbuf 7 1 "[]" NotOberonFormat] by auto
  with r l show ?thesis
    by (auto simp: not_less)
qed

theorem listFiles_label_check_witness:
  "4096 \<le> length (imgArray \<lparr>img = (replicate 4096 0)[21 := 0xf9, 3584 := 0xe5, 3595 := 8],
             img_spare = [], fat = replicate 720 0\<rparr>)
   \<and> imgArray \<lparr>img = (replicate 4096 0)[21 := 0xf9, 3584 := 0xe5, 3595 := 8],
             img_spare = [], fat = replicate 720 0\<rparr> ! 21 = 0xf9
   \<and> imgArray \<lparr>img = (replicate 4096 0)[21 := 0xf9, 3584 := 0xe5, 3595 := 8],
             img_spare = [], fat = replicate 720 0\<rparr> ! 3595 = 8
   \<and> (0xe5 :: byte) \<le> imgArray \<lparr>img = (replicate 4096 0)[21 := 0xf9, 3584 := 0xe5, 3595 := 8],
             img_spare = [], fat = replicate 720 0\<rparr> ! 3584
   \<and> fst (listFiles \<lparr>img = (replicate 4096 0)[21 := 0xf9, 3584 := 0xe5, 3595 := 8],
             img_spare = [], fat = replicate 720 0\<rparr>) \<noteq> Inl NotOberonFormat
   \<and> imgArray \<lparr>img = (replicate 4096 0)[21 := 0xe9, 3584 := 0xe4, 3595 := 8],
             img_spare = [], fat = replicate 720 0\<rparr> ! 3584 < 0xe5
   \<and> fst (listFiles \<lparr>img = (replicate 4096 0)[21 := 0xe9, 3584 := 0xe4, 3595 := 8],
             img_spare = [], fat = replicate 720 0\<rparr>) = Inl NotOberonFormat"
  using listFiles_label_check [of "\<lparr>img = (replicate 4096 0)[21 := 0xf9, 3584 := 0xe5, 3595 := 8],
             img_spare = [], fat = replicate 720 0\<rparr>"]
    listFiles_label_check [of "\<lparr>img = (replicate 4096 0)[21 := 0xe9, 3584 := 0xe4, 3595 := 8],
             img_spare = [], fat = replicate 720 0\<rparr>"]
  by (simp add: imgArray_def)

section \<open>Block-range access\<close>

lemma sint_times_512:
  fixes w :: int32
  assumes "\<bar>sint w\<bar> * 512 < 2 ^ 31"
  shows "sint (w * 512) = sint w * 512"
proof -
  have "sint (w * 512) = signed_take_bit 31 (sint w * 512)"
    by (simp add: sint_word_ariths)
  also have "\<dots> = sint w * 512"
    using assms by (intro signed_take_bit_int_eq_self) (simp_all add: abs_if split: if_splits)
  finally show ?thesis .
qed

lemma sint_plus_small:
  fixes a b :: int32
  assumes "\<bar>sint a + sint b\<bar> < 2 ^ 31"
  shows "sint (a + b) = sint a + sint b"
proof -
  have "sint (a + b) = signed_take_bit 31 (sint a + sint b)"
    by (simp add: sint_word_ariths)
  also have "\<dots> = sint a + sint b"
    using assms by (intro signed_take_bit_int_eq_self) (simp_all add: abs_if split: if_splits)
  finally show ?thesis .
qed

lemma getBlocks_no_overflow:
  assumes "\<bar>sint idx\<bar> * 512 + \<bar>sint cnt\<bar> * 512 < 2 ^ 31"
  shows "getBlocks fl idx cnt =
    (if 0 \<le> sint idx \<and> 0 \<le> sint cnt
        \<and> sint idx * 512 + sint cnt * 512 \<le> int (length (imgArray fl))
     then Inr (take (nat (sint cnt) * 512) (drop (nat (sint idx) * 512) (imgArray fl)))
     else Inl Panic)"
proof -
  have i: "sint (idx * 512) = sint idx * 512"
    using assms by (intro sint_times_512) simp
  have c: "sint (cnt * 512) = sint cnt * 512"
    using assms by (intro sint_times_512) simp
  have "\<bar>sint idx * 512 + sint cnt * 512\<bar> \<le> \<bar>sint idx\<bar> * 512 + \<bar>sint cnt\<bar> * 512"
    by (simp add: abs_if)
  with assms have h: "sint (idx * 512 + cnt * 512) = sint idx * 512 + sint cnt * 512"
    using sint_plus_small [of "idx * 512" "cnt * 512"] by (simp add: i c)
  show ?thesis
  proof (cases "0 \<le> sint idx \<and> 0 \<le> sint cnt")
    case True
    then have "nat (sint idx * 512 + sint cnt * 512) - nat (sint idx * 512) = nat (sint cnt) * 512"
      and "nat (sint idx * 512) = nat (sint idx) * 512"
      and "nat (sint idx * 512 + sint cnt * 512) \<le> length (imgArray fl)
           \<longleftrightarrow> sint idx * 512 + sint cnt * 512 \<le> int (length (imgArray fl))"
      by (simp_all add: nat_add_distrib nat_mult_distrib) linarith
    with True show ?thesis
      by (simp add: getBlocks_def Let_def i c h)
  next
    case False
    then show ?thesis
      by (auto simp add: getBlocks_def Let_def i c h)
  qed
qed

lemma take_drop_imgArray:
  "n + m \<le> length (img fl) \<Longrightarrow> take m (drop n (imgArray fl)) = take m (drop n (img fl))"
  by (simp add: imgArray_def)

text \<open>
  C7, as stated: every access whose end \<open>start * blockSize + count * blockSize\<close> exceeds the
  loaded image's length fails. The slice expression of \<^verbatim>\<open>getBlocks\<close> is checked against
  the capacity of \<^verbatim>\<open>fl.img\<close>, not its length: on an image of 2047 bytes whose backing
  array has one spare element (what \<^verbatim>\<open>os.ReadFile\<close> allocates for a file of that size),
  \<^verbatim>\<open>getBlocks(1, 3)\<close>, the access of \<^verbatim>\<open>initFAT\<close>, ends at 2048 and returns 1536 bytes.
\<close>

theorem getBlocks_beyond_length_counterexample:
  "length (img \<lparr>img = replicate 2047 1, img_spare = [0], fat = replicate 720 0\<rparr>) < 1 * 512 + 3 * 512
   \<and> getBlocks \<lparr>img = replicate 2047 1, img_spare = [0], fat = replicate 720 0\<rparr> 1 3
       = Inr (replicate 1535 1 @ [0])"
  by (simp add: getBlocks_def imgArray_def replicate_add [symmetric])

text \<open>
  C7, amended: for every block-range access \<^verbatim>\<open>getBlocks(start, count)\<close> whose offsets do
  not overflow \<^verbatim>\<open>int32\<close> (\<open>|start| * 512 + |count| * 512 < 2^31\<close>), the access fails with
  a Go run-time panic (fatal, not undefined behaviour) when \<open>start\<close> or \<open>count\<close> is
  negative or \<open>start * 512 + count * 512\<close> exceeds the capacity of the image slice (the
  loaded image's length plus the spare elements of its backing array); every other access
  returns the \<open>count * 512\<close> elements from offset \<open>start * 512\<close> on, and these are the
  corresponding bytes of the image whenever \<open>start * 512 + count * 512\<close> is within the
  image's length.
\<close>

theorem getBlocks_range:
  assumes "\<bar>sint idx\<bar> * 512 + \<bar>sint cnt\<bar> * 512 < 2 ^ 31"
  shows "(sint idx < 0 \<or> sint cnt < 0
            \<or> int (length (imgArray fl)) < sint idx * 512 + sint cnt * 512
          \<longrightarrow> getBlocks fl idx cnt = Inl Panic)
       \<and> (0 \<le> sint idx \<and> 0 \<le> sint cnt
            \<and> sint idx * 512 + sint cnt * 512 \<le> int (length (imgArray fl))
          \<longrightarrow> getBlocks fl idx cnt
              = Inr (take (nat (sint cnt) * 512) (drop (nat (sint idx) * 512) (imgArray fl))))
       \<and> (0 \<le> sint idx \<and> 0 \<le> sint cnt
            \<and> sint idx * 512 + sint cnt * 512 \<le> int (length (img fl))
          \<longrightarrow> getBlocks fl idx cnt
              = Inr (take (nat (sint cnt) * 512) (drop (nat (sint idx) * 512) (img fl))))"
proof -
  have "take (nat (sint cnt) * 512) (drop (nat (sint idx) * 512) (imgArray fl))
      = take (nat (sint cnt) * 512) (drop (nat (sint idx) * 512) (img fl))"
    if "0 \<le> sint idx" "0 \<le> sint cnt" "sint idx * 512 + sint cnt * 512 \<le> int (length (img fl))"
  proof -
    from that have "nat (sint idx) * 512 + nat (sint cnt) * 512 \<le> length (img fl)"
      by linarith
    then show ?thesis by (rule take_drop_imgArray)
  qed
  moreover have "length (img fl) \<le> length (imgArray fl)"
    by (simp add: imgArray_def)
  ultimately show ?thesis
    unfolding getBlocks_no_overflow [OF assms] by auto
qed

theorem getBlocks_range_witness:
  "\<bar>sint (1 :: int32)\<bar> * 512 + \<bar>sint (3 :: int32)\<bar> * 512 < 2 ^ 31
   \<and> sint (1 :: int32) * 512 + sint (3 :: int32) * 512
       \<le> int (length (img \<lparr>img = replicate 2048 1, img_spare = [0], fat = replicate 720 0\<rparr>))
   \<and> getBlocks \<lparr>img = replicate 2048 1, img_spare = [0], fat = replicate 720 0\<rparr> 1 3
       = Inr (replicate 1536 1)
   \<and> int (length (imgArray \<lparr>img = replicate 2048 1, img_spare = [0], fat = replicate 720 0\<rparr>))
       < sint (4 :: int32) * 512 + sint (1 :: int32) * 512
   \<and> getBlocks \<lparr>img = replicate 2048 1, img_spare = [0], fat = replicate 720 0\<rparr> 4 1 = Inl Panic
   \<and> sint (- 1 :: int32) < 0
   \<and> getBlocks \<lparr>img = replicate 2048 1, img_spare = [0], fat = replicate 720 0\<rparr> (- 1) 2 = Inl Panic"
  using getBlocks_range [of 1 3 "\<lparr>img = replicate 2048 1, img_spare = [0], fat = replicate 720 0\<rparr>"]
    getBlocks_range [of 4 1 "\<lparr>img = replicate 2048 1, img_spare = [0], fat = replicate 720 0\<rparr>"]
    getBlocks_range [of "- 1" 2 "\<lparr>img = replicate 2048 1, img_spare = [0], fat = replicate 720 0\<rparr>"]
  by (simp add: imgArray_def)

text \<open>
  Why the amended claim leaves overflowing offsets out: the offsets are \<^verbatim>\<open>int32\<close>, so
  block number \<open>2^23\<close> has offset \<open>2^32 = 0\<close> and is answered with block 0.
\<close>

lemma getBlocks_wraps:
  "getBlocks \<lparr>img = replicate 512 1, img_spare = [], fat = replicate 720 0\<rparr> 8388608 1
     = Inr (replicate 512 1)"
  by (simp add: getBlocks_def imgArray_def)

section \<open>Decoding a group of the allocation table\<close>

lemma sint_word_of_int_small:
  "- (2 ^ 31) \<le> k \<Longrightarrow> k < 2 ^ 31 \<Longrightarrow> sint (word_of_int k :: int32) = k"
  by (simp add: sint_sbintrunc' signed_take_bit_int_eq_self)

lemma smod_nonneg: "0 \<le> k \<Longrightarrow> 0 < l \<Longrightarrow> k smod l = k mod l" for k l :: int
  by (simp add: signed_modulo_int_def sgn_if)

lemma sdiv_nonneg: "0 \<le> k \<Longrightarrow> 0 < l \<Longrightarrow> k sdiv l = k div l" for k l :: int
  by (simp add: signed_divide_int_def sgn_if)

lemma group_word:
  fixes g :: int
  assumes "0 \<le> g" "g < 2 ^ 24"
  shows "push_bit 16 (ucast (word_of_int (g div 65536) :: byte)) OR
         push_bit 8 (ucast (word_of_int (g div 256 mod 256) :: byte)) OR
         ucast (word_of_int (g mod 256) :: byte) = (word_of_int g :: int32)"
proof -
  have d16: "g div 65536 = drop_bit 16 g" and d8: "g div 256 mod 256 = take_bit 8 (drop_bit 8 g)"
    and d0: "g mod 256 = take_bit 8 g"
    by (simp_all add: drop_bit_eq_div take_bit_eq_mod)
  have hi: "k < 24" if "bit g k" for k
  proof -
    have "take_bit 24 g = g" using assms by (simp add: take_bit_int_eq_self)
    with that have "bit (take_bit 24 g) k" by (simp only:)
    then show ?thesis by (simp only: bit_take_bit_iff)
  qed
  show ?thesis
    unfolding d16 d8 d0
  proof (rule bit_word_eqI)
    fix n
    assume "n < LENGTH(32)"
    then show "bit (push_bit 16 (ucast (word_of_int (drop_bit 16 g) :: byte)) OR
         push_bit 8 (ucast (word_of_int (take_bit 8 (drop_bit 8 g)) :: byte)) OR
         (ucast (word_of_int (take_bit 8 g) :: byte) :: int32)) n = bit (word_of_int g :: int32) n"
      using hi [of n] by (cases "16 \<le> n"; cases "8 \<le> n") (auto simp add: bit_simps)
  qed
qed

lemma fatGroup_of_group:
  fixes a b :: int
  assumes a: "- 2048 \<le> a" "a \<le> 2047" and b: "- 2048 \<le> b" "b \<le> 2047"
  shows "fatGroup (word_of_int ((a mod 4096 + 4096 * (b mod 4096)) mod 256))
            (word_of_int ((a mod 4096 + 4096 * (b mod 4096)) div 256 mod 256))
            (word_of_int ((a mod 4096 + 4096 * (b mod 4096)) div 65536))
         = (word_of_int a, word_of_int b)"
proof -
  define g where "g = a mod 4096 + 4096 * (b mod 4096)"
  have g: "0 \<le> g" "g < 2 ^ 24"
    unfolding g_def using pos_mod_bound [of 4096 a] pos_mod_bound [of 4096 b]
      pos_mod_sign [of 4096 a] pos_mod_sign [of 4096 b] by simp_all
  define n :: int32 where "n = word_of_int g"
  have sn: "sint n = g"
    unfolding n_def using g by (intro sint_word_of_int_small) simp_all
  have gm: "g mod 4096 = a mod 4096" and gd: "g div 4096 = b mod 4096"
    unfolding g_def by simp_all
  have r: "rem32 n 4096 = word_of_int (a mod 4096)"
    using g by (simp add: rem32_def sn smod_nonneg gm)
  have q: "quo32 n 4096 = word_of_int (b mod 4096)"
    using g by (simp add: quo32_def sn sdiv_nonneg gd)
  have s: "sint (word_of_int (x mod 4096) :: int32) = x mod 4096" for x :: int
    using pos_mod_bound [of 4096 x] pos_mod_sign [of 4096 x]
    by (intro sint_word_of_int_small) simp_all
  have sx: "(if 2047 < x mod 4096 then (word_of_int (x mod 4096) :: int32) - 4096
              else word_of_int (x mod 4096)) = word_of_int x"
    if "- 2048 \<le> x" "x \<le> 2047" for x :: int
  proof (cases "0 \<le> x")
    case True
    with that have "x mod 4096 = x" by simp
    with that show ?thesis by simp
  next
    case False
    have "x mod 4096 = (x + 4096) mod 4096"
      by simp
    also have "\<dots> = x + 4096"
      using that False by (intro mod_pos_pos_trivial) simp_all
    finally have "x mod 4096 = x + 4096" .

    with that False show ?thesis by simp
  qed
  show ?thesis
    unfolding fatGroup_def g_def [symmetric] group_word [OF g] n_def [symmetric]
    using sx [OF a] sx [OF b] by (auto simp add: Let_def r q s split: if_splits)
qed


text \<open>
  C3: for every pair \<open>(a, b)\<close> of signed 12-bit values in \<open>[-2048, 2047]\<close>, packing them
  into one little-endian 3-byte group (\<open>a\<close> in the low 12 bits, \<open>b\<close> in the high 12 bits)
  and decoding that group as the loop of \<^verbatim>\<open>initFAT\<close> does recovers exactly \<open>(a, b)\<close>.
\<close>

theorem fatGroup_packGroup:
  assumes "- 2048 \<le> a" "a \<le> 2047" "- 2048 \<le> b" "b \<le> 2047"
  shows "(case packGroup a b of (b0, b1, b2) \<Rightarrow> map_prod sint sint (fatGroup b0 b1 b2)) = (a, b)"
proof -
  have "sint (word_of_int x :: int32) = x" if "- 2048 \<le> x" "x \<le> 2047" for x :: int
    using that by (intro sint_word_of_int_small) simp_all
  with assms show ?thesis
    by (simp add: packGroup_def Let_def fatGroup_of_group)
qed

theorem fatGroup_packGroup_witness:
  "(- 2048 :: int) \<le> - 2048 \<and> (- 2048 :: int) \<le> 2047 \<and> (- 2048 :: int) \<le> 2047
   \<and> (2047 :: int) \<le> 2047
   \<and> (case packGroup (- 2048) 2047 of (b0, b1, b2) \<Rightarrow> map_prod sint sint (fatGroup b0 b1 b2))
       = (- 2048, 2047)
   \<and> packGroup (- 2048) 2047 = (0x00, 0xf8, 0x7f)"
  using fatGroup_packGroup [of "- 2048" 2047] by (simp add: packGroup_def)

lemma fatGroup_examples:
  "fatGroup 0x00 0xf8 0x7f = (- 2048, 2047)"
  "fatGroup 0xff 0xff 0xff = (- 1, - 1)"
  "fatGroup 0x03 0x40 0x00 = (3, 4)"
  by (simp_all add: fatGroup_def rem32_def quo32_def signed_modulo_int_def signed_divide_int_def)

section \<open>Decoding the allocation table\<close>

lemma initFAT_loop_spec:
  assumes "i \<le> 720" "even i" "length t = 720" "j + 3 * ((720 - i) div 2) \<le> length buf"
  shows "\<exists>t'. initFAT_loop buf i j t = Inr t' \<and> length t' = 720
          \<and> (\<forall>x<i. t' ! x = t ! x)
          \<and> (\<forall>m<(720 - i) div 2.
                (t' ! (i + 2 * m), t' ! (i + 2 * m + 1))
                  = fatGroup (buf ! (j + 3 * m)) (buf ! (j + 3 * m + 1)) (buf ! (j + 3 * m + 2)))"
  using assms
proof (induction buf i j t rule: initFAT_loop.induct)
  case (1 buf i j t)
  show ?case
  proof (cases "i < 720")
    case False
    with "1.prems" have "i = 720" by simp
    then show ?thesis
      by (subst initFAT_loop.simps) (simp add: "1.prems")
  next
    case True
    with "1.prems" have i1: "i + 1 < 720"
      by presburger
    from True "1.prems" have k: "(720 - i) div 2 = Suc ((720 - (i + 2)) div 2)"
      by presburger
    with "1.prems" have j2: "j + 2 < length buf" and jn: "j + 3 + 3 * ((720 - (i + 2)) div 2) \<le> length buf"
      by simp_all
    obtain n0 n1 where g: "fatGroup (buf ! j) (buf ! (j + 1)) (buf ! (j + 2)) = (n0, n1)"
      by (cases "fatGroup (buf ! j) (buf ! (j + 1)) (buf ! (j + 2))")
    define t2 where "t2 = t[i := n0, i + 1 := n1]"
    have lt2: "length t2 = 720"
      by (simp add: t2_def "1.prems")
    have step: "initFAT_loop buf i j t = initFAT_loop buf (i + 2) (j + 3) t2"
      using True i1 j2 "1.prems"(3) g by (subst initFAT_loop.simps) (simp add: t2_def)
    have "\<exists>t'. initFAT_loop buf (i + 2) (j + 3) t2 = Inr t' \<and> length t' = 720
          \<and> (\<forall>x<i + 2. t' ! x = t2 ! x)
          \<and> (\<forall>m<(720 - (i + 2)) div 2.
                (t' ! (i + 2 + 2 * m), t' ! (i + 2 + 2 * m + 1))
                  = fatGroup (buf ! (j + 3 + 3 * m)) (buf ! (j + 3 + 3 * m + 1)) (buf ! (j + 3 + 3 * m + 2)))"
      unfolding t2_def
    proof (rule "1.IH" [OF True _ g [symmetric]])
      show "j + 2 < length buf \<and> i + 1 < 720"
        using j2 i1 by simp
      show "i + 2 \<le> 720" "even (i + 2)"
        using i1 "1.prems"(2) by simp_all
      show "length (t[i := n0, i + 1 := n1]) = 720"
        using "1.prems"(3) by simp
      show "j + 3 + 3 * ((720 - (i + 2)) div 2) \<le> length buf"
        by (rule jn)
    qed
    then obtain t' where r: "initFAT_loop buf (i + 2) (j + 3) t2 = Inr t'" and l: "length t' = 720"
      and old: "\<forall>x<i + 2. t' ! x = t2 ! x"
      and new: "\<forall>m<(720 - (i + 2)) div 2.
                (t' ! (i + 2 + 2 * m), t' ! (i + 2 + 2 * m + 1))
                  = fatGroup (buf ! (j + 3 + 3 * m)) (buf ! (j + 3 + 3 * m + 1)) (buf ! (j + 3 + 3 * m + 2))"
      by blast
    have a: "t' ! x = t ! x" if "x < i" for x
      using old that by (simp add: t2_def)
    have b0: "t' ! i = n0" "t' ! (i + 1) = n1"
      using old i1 "1.prems"(3) by (simp_all add: t2_def)
    have c: "(t' ! (i + 2 * m), t' ! (i + 2 * m + 1))
                  = fatGroup (buf ! (j + 3 * m)) (buf ! (j + 3 * m + 1)) (buf ! (j + 3 * m + 2))"
      if "m < (720 - i) div 2" for m
    proof (cases m)
      case 0
      with b0 g show ?thesis by simp
    next
      case (Suc m')
      with that k have "m' < (720 - (i + 2)) div 2" by simp
      with new have "(t' ! (i + 2 + 2 * m'), t' ! (i + 2 + 2 * m' + 1))
                  = fatGroup (buf ! (j + 3 + 3 * m')) (buf ! (j + 3 + 3 * m' + 1)) (buf ! (j + 3 + 3 * m' + 2))"
        by blast
      then show ?thesis
        by (simp add: Suc add.assoc)
    qed
    from r l a c show ?thesis
      unfolding step by blast
  qed
qed


lemma getBlocks_1_3:
  "2048 \<le> length (imgArray fl) \<Longrightarrow> getBlocks fl 1 3 = Inr (take 1536 (drop 512 (imgArray fl)))"
  by (simp add: getBlocks_def)

text \<open>
  C8: after \<^verbatim>\<open>initFAT\<close> has decoded the allocation table from the 3 table blocks (blocks
  1 to 3, which must lie within the image slice), entries 0 and 1 hold the sentinel \<open>-1\<close>,
  which is no index of the table (following it as a link panics), and all 720 entries are
  filled: entries \<open>2g\<close> and \<open>2g + 1\<close>, for \<open>g\<close> from 1 to 359, hold the two values of the
  3-byte group at offset \<open>3g\<close> of block 1, whatever the table held before. The image is
  left as it was.
\<close>

theorem initFAT_table:
  assumes "length (fat fl) = 720" and "2048 \<le> length (imgArray fl)"
  shows "\<exists>t. initFAT fl = (Inr (), fl\<lparr>fat := t\<rparr>) \<and> length t = 720
          \<and> t ! 0 = - 1 \<and> t ! 1 = - 1
          \<and> fatAt (fl\<lparr>fat := t\<rparr>) (t ! 0) = Inl Panic \<and> fatAt (fl\<lparr>fat := t\<rparr>) (t ! 1) = Inl Panic
          \<and> (\<forall>g. 1 \<le> g \<and> g < 360 \<longrightarrow>
                (t ! (2 * g), t ! (2 * g + 1))
                  = fatGroup (imgArray fl ! (512 + 3 * g)) (imgArray fl ! (512 + 3 * g + 1))
                      (imgArray fl ! (512 + 3 * g + 2)))"
proof -
  define buf where "buf = take 1536 (drop 512 (imgArray fl))"
  define t0 where "t0 = (fat fl)[0 := - 1, 1 := - 1]"
  have b: "getBlocks fl 1 3 = Inr buf"
    unfolding buf_def using assms(2) by (rule getBlocks_1_3)
  have lb: "length buf = 1536"
    using assms(2) by (simp add: buf_def)
  have nb: "buf ! x = imgArray fl ! (512 + x)" if "x < 1536" for x
    using that assms(2) by (simp add: buf_def)
  have "\<exists>t'. initFAT_loop buf 2 3 t0 = Inr t' \<and> length t' = 720
          \<and> (\<forall>x<2. t' ! x = t0 ! x)
          \<and> (\<forall>m<(720 - 2) div 2.
                (t' ! (2 + 2 * m), t' ! (2 + 2 * m + 1))
                  = fatGroup (buf ! (3 + 3 * m)) (buf ! (3 + 3 * m + 1)) (buf ! (3 + 3 * m + 2)))"
    by (rule initFAT_loop_spec) (simp_all add: t0_def assms(1) lb)
  then obtain t where r: "initFAT_loop buf 2 3 t0 = Inr t" and l: "length t = 720"
    and old: "\<forall>x<2. t ! x = t0 ! x"
    and new: "\<forall>m<359. (t ! (2 + 2 * m), t ! (2 + 2 * m + 1))
                  = fatGroup (buf ! (3 + 3 * m)) (buf ! (3 + 3 * m + 1)) (buf ! (3 + 3 * m + 2))"
    by auto
  have e0: "t ! 0 = - 1" and e1: "t ! 1 = - 1"
    using old assms(1) by (simp_all add: t0_def)
  have grp: "(t ! (2 * g), t ! (2 * g + 1))
                  = fatGroup (imgArray fl ! (512 + 3 * g)) (imgArray fl ! (512 + 3 * g + 1))
                      (imgArray fl ! (512 + 3 * g + 2))" if "1 \<le> g" "g < 360" for g
  proof -
    from that obtain m where m: "g = Suc m" "m < 359"
      by (cases g) simp_all
    with new have "(t ! (2 + 2 * m), t ! (2 + 2 * m + 1))
                  = fatGroup (buf ! (3 + 3 * m)) (buf ! (3 + 3 * m + 1)) (buf ! (3 + 3 * m + 2))"
      by blast
    moreover have "buf ! (3 + 3 * m) = imgArray fl ! (512 + 3 * g)"
      "buf ! (3 + 3 * m + 1) = imgArray fl ! (512 + 3 * g + 1)"
      "buf ! (3 + 3 * m + 2) = imgArray fl ! (512 + 3 * g + 2)"
      using m by (simp_all add: nb)
    ultimately show ?thesis
      using m by simp
  qed
  have "initFAT fl = (Inr (), fl\<lparr>fat := t\<rparr>)"
    using r by (simp add: initFAT_def b t0_def)
  with l e0 e1 grp show ?thesis
    by (intro exI [of _ t]) (simp add: fatAt_def)
qed

theorem initFAT_table_witness:
  "length (fat \<lparr>img = replicate 2048 0xff, img_spare = [], fat = replicate 720 0\<rparr>) = 720
   \<and> 2048 \<le> length (imgArray \<lparr>img = replicate 2048 0xff, img_spare = [], fat = replicate 720 0\<rparr>)
   \<and> (\<exists>t. initFAT \<lparr>img = replicate 2048 0xff, img_spare = [], fat = replicate 720 0\<rparr>
            = (Inr (), \<lparr>img = replicate 2048 0xff, img_spare = [], fat = t\<rparr>)
          \<and> length t = 720 \<and> t ! 0 = - 1 \<and> t ! 1 = - 1 \<and> t ! 718 = - 1 \<and> t ! 719 = - 1)"
proof -
  let ?fl = "\<lparr>img = replicate 2048 0xff, img_spare = [], fat = replicate 720 0\<rparr>"
  have h: "length (fat ?fl) = 720" "2048 \<le> length (imgArray ?fl)"
    by (simp_all add: imgArray_def)
  from initFAT_table [OF h] obtain t where t: "initFAT ?fl = (Inr (), ?fl\<lparr>fat := t\<rparr>)"
    "length t = 720" "t ! 0 = - 1" "t ! 1 = - 1"
    and g: "\<forall>g. 1 \<le> g \<and> g < 360 \<longrightarrow>
                (t ! (2 * g), t ! (2 * g + 1))
                  = fatGroup (imgArray ?fl ! (512 + 3 * g)) (imgArray ?fl ! (512 + 3 * g + 1))
                      (imgArray ?fl ! (512 + 3 * g + 2))"
    by blast
  from g [rule_format, of 359] have "t ! 718 = - 1" "t ! 719 = - 1"
    by (simp_all add: imgArray_def fatGroup_examples)
  with t h show ?thesis
    by auto
qed

section \<open>readFile\<close>

lemma sint_minus_1024:
  fixes r :: int32
  assumes "1024 < sint r"
  shows "sint (r - 1024) = sint r - 1024"
proof -
  have "sint r < 2 ^ 31"
    using sint_lt [of r] by simp
  with assms show ?thesis
    by (simp add: sint_word_ariths signed_take_bit_int_eq_self)
qed

lemma readFile_loop_length:
  assumes "readFile_loop fl res r i buf = Inr data" "length buf = 1024"
  shows "int (length data) = int (length res) + sint r"
  using assms
proof (induction fl res r i buf rule: readFile_loop.induct)
  case (1 fl res remaining i buf)
  show ?case
  proof (cases "1024 < sint remaining")
    case False
    with "1.prems" show ?thesis
      by (subst (asm) readFile_loop.simps) (auto split: if_splits)
  next
    case True
    with "1.prems" obtain i' buf' where f: "fatAt fl i = Inr i'"
      and g: "getBlocks fl (10 + 2 * i') 2 = Inr buf'"
      and r: "readFile_loop fl (res @ buf) (remaining - 1024) i' buf' = Inr data"
      by (subst (asm) readFile_loop.simps) (auto split: sum.splits)
    have "length buf' = 1024"
      using g by (rule getBlocks_2_length)
    with "1.IH" [OF True f g r] have "int (length data) = int (length (res @ buf)) + sint (remaining - 1024)"
      by simp
    with True "1.prems"(2) show ?thesis
      by (simp add: sint_minus_1024)
  qed
qed

lemma readFile_length:
  assumes "fst (readFile fl fd) = Inr data"
  shows "int (length data) = sint (size fd)"
proof (cases "size fd = 0")
  case True
  with assms show ?thesis by (simp add: readFile_def)
next
  case False
  with assms obtain buf where g: "getBlocks fl (10 + 2 * scast (head fd)) 2 = Inr buf"
    and r: "readFile_loop fl [] (size fd) (scast (head fd)) buf = Inr data"
    by (auto simp: readFile_def Let_def split: sum.splits)
  from readFile_loop_length [OF r getBlocks_2_length [OF g]] show ?thesis
    by simp
qed

lemma units_step:
  fixes r :: int
  assumes "1024 < r"
  shows "nat (r - 1) div 1024 = Suc (nat (r - 1024 - 1) div 1024)"
proof -
  have "nat (r - 1) = nat (r - 1024 - 1) + 1024"
    using assms by simp
  then show ?thesis
    by simp
qed

lemma readFile_loop_succeeds:
  assumes "0 < sint r" "length buf = 1024"
    and "chainWithin fl (Suc (nat (sint r - 1) div 1024)) i"
  shows "\<exists>data. readFile_loop fl res r i buf = Inr data"
  using assms
proof (induction fl res r i buf rule: readFile_loop.induct)
  case (1 fl res remaining i buf)
  show ?case
  proof (cases "1024 < sint remaining")
    case False
    with "1.prems" show ?thesis
      by (subst readFile_loop.simps) simp
  next
    case True
    let ?k = "nat (sint remaining - 1024 - 1) div 1024"
    from "1.prems"(3) have c: "0 \<le> sint i" "sint i < 720"
      "chainWithin fl (Suc ?k) (fat fl ! nat (sint i))"
      unfolding units_step [OF True] by simp_all
    define i' where "i' = fat fl ! nat (sint i)"
    from c have f: "fatAt fl i = Inr i'"
      by (simp add: fatAt_def i'_def)
    from c obtain buf' where g: "getBlocks fl (10 + 2 * i') 2 = Inr buf'"
      by (cases "getBlocks fl (10 + 2 * i') 2") (simp_all add: i'_def)
    have "\<exists>data. readFile_loop fl (res @ buf) (remaining - 1024) i' buf' = Inr data"
    proof (rule "1.IH" [OF True f g])
      show "0 < sint (remaining - 1024)"
        using True by (simp add: sint_minus_1024)
      show "length buf' = 1024"
        using g by (rule getBlocks_2_length)
      show "chainWithin fl (Suc (nat (sint (remaining - 1024) - 1) div 1024)) i'"
        using c(3) True by (simp add: sint_minus_1024 i'_def)
    qed
    with True f g show ?thesis
      by (subst readFile_loop.simps) simp
  qed
qed

lemma readFile_loop_units_le:
  "readFile_loop_units fl r i \<le> nat (sint r - 1) div 1024"
proof (induction fl r i rule: readFile_loop_units.induct)
  case (1 fl remaining i)
  show ?case
  proof (cases "1024 < sint remaining")
    case False
    then show ?thesis
      by (subst readFile_loop_units.simps) simp
  next
    case True
    show ?thesis
    proof (cases "fatAt fl i")
      case (Inl e)
      with True show ?thesis
        by (subst readFile_loop_units.simps) simp
    next
      case f: (Inr i')
      show ?thesis
      proof (cases "getBlocks fl (10 + 2 * i') 2")
        case (Inl e)
        with True f show ?thesis
          by (subst readFile_loop_units.simps) (simp add: units_step)
      next
        case g: (Inr buf')
        from "1.IH" [OF True f g] True f g show ?thesis
          by (subst readFile_loop_units.simps) (simp add: units_step sint_minus_1024)
      qed
    qed
  qed
qed


lemma readFile_loop_units_exact:
  assumes "readFile_loop fl res r i buf = Inr data"
  shows "readFile_loop_units fl r i = nat (sint r - 1) div 1024"
  using assms
proof (induction fl res r i buf rule: readFile_loop.induct)
  case (1 fl res remaining i buf)
  show ?case
  proof (cases "1024 < sint remaining")
    case False
    then show ?thesis
      by (subst readFile_loop_units.simps) simp
  next
    case True
    with "1.prems" obtain i' buf' where f: "fatAt fl i = Inr i'"
      and g: "getBlocks fl (10 + 2 * i') 2 = Inr buf'"
      and r: "readFile_loop fl (res @ buf) (remaining - 1024) i' buf' = Inr data"
      by (subst (asm) readFile_loop.simps) (auto split: sum.splits)
    from "1.IH" [OF True f g r] True f g show ?thesis
      by (subst readFile_loop_units.simps) (simp add: units_step sint_minus_1024)
  qed
qed

lemma ceil_1024:
  fixes s :: int
  assumes "0 < s"
  shows "(nat s + 1023) div 1024 = Suc (nat (s - 1) div 1024)"
proof -
  have "nat s + 1023 = nat (s - 1) + 1024"
    using assms by simp
  then show ?thesis
    by simp
qed

lemma size_pos: "size fd \<noteq> 0 \<Longrightarrow> 0 \<le> sint (size fd) \<Longrightarrow> 0 < sint (size fd)"
  by (metis order_le_less signed_eq_0_iff)

text \<open>
  The count agrees with the bytes \<^verbatim>\<open>readFile\<close> returns: a call that succeeds has read
  one unit for every 1024 bytes of its result, rounded up.
\<close>

lemma readFile_units_exact:
  assumes "fst (readFile fl fd) = Inr data"
  shows "readFile_units fl fd = (length data + 1023) div 1024"
proof (cases "size fd = 0")
  case True
  with assms show ?thesis
    by (simp add: readFile_def readFile_units_def)
next
  case False
  with assms obtain buf where g: "getBlocks fl (10 + 2 * scast (head fd)) 2 = Inr buf"
    and r: "readFile_loop fl [] (size fd) (scast (head fd)) buf = Inr data"
    by (auto simp: readFile_def Let_def split: sum.splits)
  have l: "int (length data) = sint (size fd)"
    using assms by (rule readFile_length)
  with False have p: "0 < sint (size fd)"
    by (intro size_pos) simp_all
  have "readFile_units fl fd = Suc (nat (sint (size fd) - 1) div 1024)"
    using False g readFile_loop_units_exact [OF r] by (simp add: readFile_units_def Let_def)
  also have "\<dots> = (nat (sint (size fd)) + 1023) div 1024"
    using p by (simp add: ceil_1024)
  also have "nat (sint (size fd)) = length data"
    using l by simp
  finally show ?thesis .
qed

text \<open>
  C2: for every directory entry whose size is not negative and whose allocation chain
  and data blocks lie within the image (the \<open>ceil(size / 1024)\<close> units of the chain from
  \<open>head\<close> on), \<^verbatim>\<open>readFile\<close> returns a byte sequence whose length is exactly the size
  field; whenever \<^verbatim>\<open>readFile\<close> returns at all, its result has that length; and for an
  entry of size 0 it returns the empty sequence without asking for a single unit.
\<close>

theorem readFile_size:
  "(0 \<le> sint (size fd)
      \<and> chainWithin fl ((nat (sint (size fd)) + 1023) div 1024) (scast (head fd))
     \<longrightarrow> (\<exists>data. readFile fl fd = (Inr data, fl) \<and> int (length data) = sint (size fd)))
   \<and> (\<forall>data. fst (readFile fl fd) = Inr data \<longrightarrow> int (length data) = sint (size fd))
   \<and> (size fd = 0 \<longrightarrow> readFile fl fd = (Inr [], fl) \<and> readFile_units fl fd = 0)"
proof (intro conjI impI allI)
  assume "size fd = 0"
  then show "readFile fl fd = (Inr [], fl)" "readFile_units fl fd = 0"
    by (simp_all add: readFile_def readFile_units_def)
next
  fix data
  assume "fst (readFile fl fd) = Inr data"
  then show "int (length data) = sint (size fd)"
    by (rule readFile_length)
next
  assume a: "0 \<le> sint (size fd)
      \<and> chainWithin fl ((nat (sint (size fd)) + 1023) div 1024) (scast (head fd))"
  show "\<exists>data. readFile fl fd = (Inr data, fl) \<and> int (length data) = sint (size fd)"
  proof (cases "size fd = 0")
    case True
    then show ?thesis
      by (simp add: readFile_def)
  next
    case False
    with a have p: "0 < sint (size fd)"
      by (intro size_pos) simp_all
    with a have c: "chainWithin fl (Suc (nat (sint (size fd) - 1) div 1024)) (scast (head fd))"
      by (simp add: ceil_1024)
    then obtain buf where g: "getBlocks fl (10 + 2 * scast (head fd)) 2 = Inr buf"
      by (cases "getBlocks fl (10 + 2 * scast (head fd)) 2") simp_all
    from readFile_loop_succeeds [OF p getBlocks_2_length [OF g] c]
    obtain data where r: "readFile_loop fl [] (size fd) (scast (head fd)) buf = Inr data"
      by blast
    with False g have "readFile fl fd = (Inr data, fl)"
      by (simp add: readFile_def Let_def)
    moreover from this have "int (length data) = sint (size fd)"
      using readFile_length [of fl fd data] by simp
    ultimately show ?thesis
      by blast
  qed
qed

lemma chainWithin_2:
  "chainWithin fl 2 i =
    (\<not> isl (getBlocks fl (10 + 2 * i) 2) \<and> 0 \<le> sint i \<and> sint i < 720
     \<and> \<not> isl (getBlocks fl (10 + 2 * (fat fl ! nat (sint i))) 2))"
  using chainWithin.simps(2) [of fl "Suc 0" i] by (simp add: numeral_2_eq_2)

theorem readFile_size_witness:
  "0 \<le> sint (size \<lparr>name = replicate 22 0, time = 0, date = 0, head = 2, size = 1500\<rparr>)
   \<and> chainWithin \<lparr>img = replicate 9216 7, img_spare = [], fat = (replicate 720 0)[2 := 3]\<rparr> 2
        (scast (head \<lparr>name = replicate 22 0, time = 0, date = 0, head = 2, size = 1500\<rparr>))
   \<and> (\<exists>data. readFile \<lparr>img = replicate 9216 7, img_spare = [], fat = (replicate 720 0)[2 := 3]\<rparr>
                 \<lparr>name = replicate 22 0, time = 0, date = 0, head = 2, size = 1500\<rparr>
               = (Inr data, \<lparr>img = replicate 9216 7, img_spare = [], fat = (replicate 720 0)[2 := 3]\<rparr>)
             \<and> length data = 1500)
   \<and> readFile \<lparr>img = [], img_spare = [], fat = []\<rparr>
        \<lparr>name = replicate 22 0, time = 0, date = 0, head = 2, size = 0\<rparr>
      = (Inr [], \<lparr>img = [], img_spare = [], fat = []\<rparr>)"
  using readFile_size [of "\<lparr>name = replicate 22 0, time = 0, date = 0, head = 2, size = 1500\<rparr>"
      "\<lparr>img = replicate 9216 7, img_spare = [], fat = (replicate 720 0)[2 := 3]\<rparr>"]
    readFile_size [of "\<lparr>name = replicate 22 0, time = 0, date = 0, head = 2, size = 0\<rparr>"
      "\<lparr>img = [], img_spare = [], fat = []\<rparr>"]
  by (simp add: chainWithin_2 getBlocks_def imgArray_def)

text \<open>
  C10: for every directory entry with size \<open>s \<ge> 0\<close>, \<^verbatim>\<open>readFile\<close> asks for at most
  \<open>max(1, ceil(s / 1024))\<close> allocation units, and for none when \<open>s = 0\<close>, whatever the
  image and the allocation table hold: the loop runs while the remaining-byte counter
  exceeds 1024 and takes 1024 off it in every iteration (the measure of the termination
  proofs of \<open>readFile_loop\<close> and \<open>readFile_loop_units\<close>), so a cyclic chain is walked
  only that often.
\<close>

theorem readFile_units_bound:
  assumes "0 \<le> sint (size fd)"
  shows "readFile_units fl fd \<le> max 1 ((nat (sint (size fd)) + 1023) div 1024)
       \<and> (size fd = 0 \<longrightarrow> readFile_units fl fd = 0)"
proof (cases "size fd = 0")
  case True
  then show ?thesis
    by (simp add: readFile_units_def)
next
  case False
  with assms have p: "0 < sint (size fd)"
    by (intro size_pos) simp_all
  have "readFile_units fl fd \<le> Suc (nat (sint (size fd) - 1) div 1024)"
    using False readFile_loop_units_le [of fl "size fd" "scast (head fd)"]
    by (simp add: readFile_units_def Let_def split: sum.splits)
  with p False show ?thesis
    by (simp add: ceil_1024)
qed

theorem readFile_units_bound_witness:
  "0 \<le> sint (size \<lparr>name = replicate 22 0, time = 0, date = 0, head = 0, size = 3000\<rparr>)
   \<and> readFile_units \<lparr>img = replicate 6144 7, img_spare = [], fat = replicate 720 0\<rparr>
        \<lparr>name = replicate 22 0, time = 0, date = 0, head = 0, size = 3000\<rparr> \<le> 3"
  using readFile_units_bound [of "\<lparr>name = replicate 22 0, time = 0, date = 0, head = 0, size = 3000\<rparr>"
      "\<lparr>img = replicate 6144 7, img_spare = [], fat = replicate 720 0\<rparr>"]
  by simp

text \<open>
  A chain that is a cycle: every entry of the table is 0, so unit 0 is its own successor.
  An entry of 3000 bytes starting there is read in three units.
\<close>

lemma readFile_cyclic_chain:
  "readFile_units \<lparr>img = replicate 6144 7, img_spare = [], fat = replicate 720 0\<rparr>
      \<lparr>name = replicate 22 0, time = 0, date = 0, head = 0, size = 3000\<rparr> = 3"
  "fst (readFile \<lparr>img = replicate 6144 7, img_spare = [], fat = replicate 720 0\<rparr>
      \<lparr>name = replicate 22 0, time = 0, date = 0, head = 0, size = 3000\<rparr>) = Inr (replicate 3000 7)"
  by (simp_all add: readFile_units_def readFile_def readFile_loop_units.simps readFile_loop.simps
      fatAt_def getBlocks_def imgArray_def replicate_add [symmetric])

section \<open>Enumeration of the directory\<close>

lemma sint_of_nat_small: "n < 2 ^ 31 \<Longrightarrow> sint (of_nat n :: int32) = int n"
proof -
  assume "n < 2 ^ 31"
  then have "int n < 2 ^ 31" by simp
  then have "sint (word_of_int (int n) :: int32) = int n"
    by (intro sint_word_of_int_small) simp_all
  then show ?thesis by simp
qed

lemma getBlock_of_nat:
  assumes "b < 1000" "(b + 1) * 512 \<le> length (imgArray fl)"
  shows "getBlock fl (of_nat b) = Inr (take 512 (drop (b * 512) (imgArray fl)))"
proof -
  have s: "sint (of_nat b :: int32) = int b"
    using assms(1) by (intro sint_of_nat_small) simp
  have "\<bar>sint (of_nat b :: int32)\<bar> * 512 + \<bar>sint (1 :: int32)\<bar> * 512 < 2 ^ 31"
    using assms(1) by (simp add: s)
  from getBlocks_no_overflow [OF this, of fl] assms(2) show ?thesis
    by (simp add: getBlock_def s)
qed

lemma fileDescFromBytes_block:
  assumes "i < 16" "(7 + d + 1) * 512 \<le> length arr"
  shows "fileDescFromBytes (take 512 (drop ((7 + d) * 512) arr)) i
       = fileDescFromBytes (drop 3584 arr) (16 * d + i)"
proof -
  have n: "take 512 (drop ((7 + d) * 512) arr) ! (i * 32 + c) = drop 3584 arr ! ((16 * d + i) * 32 + c)"
    if "c < 32" for c
  proof -
    have "i * 32 + c < 512" using assms(1) that by simp
    then have "take 512 (drop ((7 + d) * 512) arr) ! (i * 32 + c) = arr ! ((7 + d) * 512 + (i * 32 + c))"
      using assms(2) by simp
    also have "(7 + d) * 512 + (i * 32 + c) = 3584 + ((16 * d + i) * 32 + c)"
      by simp
    also have "arr ! (3584 + ((16 * d + i) * 32 + c)) = drop 3584 arr ! ((16 * d + i) * 32 + c)"
      using assms by simp
    finally show ?thesis .
  qed
  have nm: "take 22 (drop (i * 32) (take 512 (drop ((7 + d) * 512) arr)))
          = take 22 (drop ((16 * d + i) * 32) (drop 3584 arr))"
  proof -
    have "min 22 (512 - i * 32) = 22"
      using assms(1) by simp
    moreover have "i * 32 + (7 + d) * 512 = (16 * d + i) * 32 + 3584"
      by simp
    ultimately show ?thesis
      by (simp add: drop_take ac_simps)
  qed
  have g1: "i * 32 + 31 < length (take 512 (drop ((7 + d) * 512) arr))"
    using assms by simp
  have g2: "(16 * d + i) * 32 + 31 < length (drop 3584 arr)"
    using assms by simp
  show ?thesis
    unfolding fileDescFromBytes_def Let_def
    using g1 g2 nm n [of 22] n [of 23] n [of 24] n [of 25] n [of 26] n [of 27]
      n [of 28] n [of 29] n [of 30] n [of 31]
    by (simp add: add.assoc)
qed

lemma readDirBlock_dirSlot:
  assumes "d < 7" "(7 + d + 1) * 512 \<le> length (imgArray fl)"
  shows "readDirBlock fl (of_nat (7 + d)) = Inr (map (dirSlot fl) [16 * d..<16 * d + 16])"
proof -
  have "getBlock fl (of_nat (7 + d)) = Inr (take 512 (drop ((7 + d) * 512) (imgArray fl)))"
    using assms by (intro getBlock_of_nat) simp_all
  from readDirBlock_eq [OF this]
  have "readDirBlock fl (of_nat (7 + d))
      = Inr (map (\<lambda>k. projr (fileDescFromBytes (take 512 (drop ((7 + d) * 512) (imgArray fl))) k)) [0..<16])" .
  also have "map (\<lambda>k. projr (fileDescFromBytes (take 512 (drop ((7 + d) * 512) (imgArray fl))) k)) [0..<16]
      = map (\<lambda>k. dirSlot fl (16 * d + k)) [0..<16]"
  proof (intro map_cong refl)
    fix k
    assume "k \<in> set [0..<16]"
    then have "k < 16" by simp
    from fileDescFromBytes_block [OF this assms(2)]
    show "projr (fileDescFromBytes (take 512 (drop ((7 + d) * 512) (imgArray fl))) k)
        = dirSlot fl (16 * d + k)"
      by (simp add: dirSlot_def)
  qed
  also have "\<dots> = map (dirSlot fl) (map (\<lambda>k. k + 16 * d) [0..<16])"
    by (simp add: add.commute del: upt.simps)
  also have "map (\<lambda>k. k + 16 * d) [0..<16] = [16 * d..<16 * d + 16]"
    by (simp only: map_add_upt add.commute)
  finally show ?thesis .
qed


lemma block_succ:
  assumes "d < 7"
  shows "(of_nat (7 + d) :: int32) + 1 = of_nat (7 + Suc d)"
    and "(of_nat (7 + d) :: int32) + 1 = 14 \<longleftrightarrow> d = 6"
proof -
  show e: "(of_nat (7 + d) :: int32) + 1 = of_nat (7 + Suc d)"
    by simp
  have s: "sint (of_nat (7 + Suc d) :: int32) = int (7 + Suc d)"
    using assms by (intro sint_of_nat_small) simp
  show "(of_nat (7 + d) :: int32) + 1 = 14 \<longleftrightarrow> d = 6"
    unfolding e
  proof
    assume "(of_nat (7 + Suc d) :: int32) = 14"
    then have "sint (of_nat (7 + Suc d) :: int32) = sint (14 :: int32)"
      by (simp only:)
    with s show "d = 6"
      by simp
  next
    assume "d = 6"
    then show "(of_nat (7 + Suc d) :: int32) = 14"
      by simp
  qed
qed


lemma listFiles_loop_enum:
  assumes "d < k" "k \<le> 7" "j < 16" "(7 + k) * 512 \<le> length (imgArray fl)"
    and "k = 7 \<or> (\<exists>n. 16 * d + j \<le> n \<and> n < 16 * k \<and> isTerminator (dirSlot fl n))"
  shows "listFiles_loop fl (map (dirSlot fl) [16 * d..<16 * d + 16]) (of_nat (7 + d)) j res
       = Inr (res @ takeWhile (\<lambda>fd. \<not> isTerminator fd) (map (dirSlot fl) [16 * d + j..<16 * k]))"
  using assms
proof (induction "16 * k - (16 * d + j)" arbitrary: d j res rule: less_induct)
  case less
  let ?D = "map (dirSlot fl) [16 * d..<16 * d + 16]"
  let ?n = "16 * d + j"
  have d7: "d < 7"
    using less.prems(1,2) by simp
  have lenD: "j < length ?D"
    using less.prems(3) by simp
  have nthD: "?D ! j = dirSlot fl ?n"
    using less.prems(3) by simp
  have nk: "?n < 16 * k"
    using less.prems(1,3) by simp
  have up: "[?n..<16 * k] = ?n # [Suc ?n..<16 * k]"
    using nk by (simp add: upt_conv_Cons)
  have tst: "(name (?D ! j) ! 0 = 0 \<or> name (?D ! j) ! 0 = 0xe5) = isTerminator (dirSlot fl ?n)"
    unfolding nthD by (simp add: isTerminator_def)
  show ?case
  proof (cases "isTerminator (dirSlot fl ?n)")
    case True
    have "listFiles_loop fl ?D (of_nat (7 + d)) j res = Inr res"
      using lenD tst True by (subst listFiles_loop.simps) (simp only: if_True simp_thms)
    with True show ?thesis
      by (simp add: up)
  next
    case False
    have later: "k = 7 \<or> (\<exists>n. Suc ?n \<le> n \<and> n < 16 * k \<and> isTerminator (dirSlot fl n))"
    proof (cases "k = 7")
      case True
      then show ?thesis by simp
    next
      case nk7: False
      with less.prems(5) obtain n where n: "?n \<le> n" "n < 16 * k" "isTerminator (dirSlot fl n)"
        by blast
      with False have "n \<noteq> ?n"
        by auto
      with n have "Suc ?n \<le> n"
        by simp
      with n show ?thesis
        by blast
    qed
    have rhs: "takeWhile (\<lambda>fd. \<not> isTerminator fd) (map (dirSlot fl) [?n..<16 * k])
        = dirSlot fl ?n # takeWhile (\<lambda>fd. \<not> isTerminator fd) (map (dirSlot fl) [Suc ?n..<16 * k])"
      using False by (simp add: up)
    show ?thesis
    proof (cases "j + 1 = 16")
      case nolast: False
      with less.prems(3) have j1: "j + 1 < 16"
        by simp
      have step: "listFiles_loop fl ?D (of_nat (7 + d)) j res
          = listFiles_loop fl ?D (of_nat (7 + d)) (j + 1) (res @ [?D ! j])"
        using lenD tst False nolast by (subst listFiles_loop.simps) (simp only: if_True if_False simp_thms)
      have "listFiles_loop fl ?D (of_nat (7 + d)) (j + 1) (res @ [?D ! j])
          = Inr ((res @ [?D ! j]) @ takeWhile (\<lambda>fd. \<not> isTerminator fd)
                  (map (dirSlot fl) [16 * d + (j + 1)..<16 * k]))"
      proof (rule less.hyps)
        show "16 * k - (16 * d + (j + 1)) < 16 * k - (16 * d + j)"
          using nk by simp
        show "k = 7 \<or> (\<exists>n. 16 * d + (j + 1) \<le> n \<and> n < 16 * k \<and> isTerminator (dirSlot fl n))"
          using later by simp
      qed (use less.prems j1 in simp_all)
      then show ?thesis
        unfolding step rhs nthD by simp
    next
      case last: True
      show ?thesis
      proof (cases "d = 6")
        case True
        with less.prems(1,2) have k7: "k = 7"
          by simp
        have "listFiles_loop fl ?D (of_nat (7 + d)) j res = Inr (res @ [?D ! j])"
          using lenD tst False last block_succ(2) [OF d7] True
          by (subst listFiles_loop.simps) (simp only: if_True if_False simp_thms)
        moreover have "takeWhile (\<lambda>fd. \<not> isTerminator fd) (map (dirSlot fl) [Suc ?n..<16 * k]) = []"
          using last True k7 by simp
        ultimately show ?thesis
          unfolding rhs nthD by (simp only: append_Nil2 append_assoc append_Cons append_Nil)
      next
        case d6: False
        have dk: "Suc d < k"
        proof (cases "k = 7")
          case True
          with d7 d6 show ?thesis by simp
        next
          case False
          with later obtain n where "Suc ?n \<le> n" "n < 16 * k"
            by blast
          with last show ?thesis
            by simp
        qed
        have rd: "readDirBlock fl (of_nat (7 + d) + 1)
            = Inr (map (dirSlot fl) [16 * Suc d..<16 * Suc d + 16])"
          unfolding block_succ(1) [OF d7]
          using dk less.prems(2,4) by (intro readDirBlock_dirSlot) simp_all
        have step: "listFiles_loop fl ?D (of_nat (7 + d)) j res
          = listFiles_loop fl (map (dirSlot fl) [16 * Suc d..<16 * Suc d + 16])
              (of_nat (7 + Suc d)) 0 (res @ [?D ! j])"
          using lenD tst False last block_succ(2) [OF d7] d6
          by (subst listFiles_loop.simps)
             (simp only: if_True if_False simp_thms rd rd [unfolded block_succ(1) [OF d7]] sum.case
               block_succ(1) [OF d7])
        have "listFiles_loop fl (map (dirSlot fl) [16 * Suc d..<16 * Suc d + 16])
              (of_nat (7 + Suc d)) 0 (res @ [?D ! j])
          = Inr ((res @ [?D ! j]) @ takeWhile (\<lambda>fd. \<not> isTerminator fd)
                  (map (dirSlot fl) [16 * Suc d + 0..<16 * k]))"
        proof (rule less.hyps)
          show "16 * k - (16 * Suc d + 0) < 16 * k - (16 * d + j)"
            using nk last by simp
          show "k = 7 \<or> (\<exists>n. 16 * Suc d + 0 \<le> n \<and> n < 16 * k \<and> isTerminator (dirSlot fl n))"
            using later last by simp
        qed (use less.prems dk in simp_all)
        moreover have "16 * Suc d + 0 = Suc ?n"
          using last by simp
        ultimately show ?thesis
          unfolding step rhs nthD by simp
      qed
    qed
  qed
qed


lemma name_dirSlot:
  assumes "3584 + 32 * n + 32 \<le> length (imgArray fl)" "c < 22"
  shows "name (dirSlot fl n) ! c = imgArray fl ! (3584 + 32 * n + c)"
proof -
  have "n * 32 + 31 < length (drop 3584 (imgArray fl))"
    using assms(1) by simp
  with assms show ?thesis
    by (simp add: dirSlot_def fileDescFromBytes_def Let_def ac_simps)
qed

lemma isTerminator_dirSlot:
  assumes "3584 + 32 * n + 32 \<le> length (imgArray fl)"
  shows "isTerminator (dirSlot fl n)
     \<longleftrightarrow> imgArray fl ! (3584 + 32 * n) = 0 \<or> imgArray fl ! (3584 + 32 * n) = 0xe5"
  using name_dirSlot [OF assms, of 0] by (simp add: isTerminator_def)

lemma listFiles_enum:
  assumes "1 \<le> k" "k \<le> 7" "(7 + k) * 512 \<le> length (imgArray fl)"
    and "imgArray fl ! 21 = 0xf9 \<or> imgArray fl ! 21 = 0xe9"
    and "imgArray fl ! 3595 = 8"
    and "imgArray fl ! 3584 = 0 \<or> 0xe5 \<le> imgArray fl ! 3584"
    and "k = 7 \<or> (\<exists>n. 1 \<le> n \<and> n < 16 * k \<and> isTerminator (dirSlot fl n))"
  shows "fst (listFiles fl)
       = Inr (takeWhile (\<lambda>fd. \<not> isTerminator fd) (map (dirSlot fl) [1..<16 * k]))"
proof -
  have len: "4096 \<le> length (imgArray fl)"
    using assms(1,3) by simp
  from listFiles_label [OF len assms(4,5)] obtain dbuf where r: "readDirBlock fl 7 = Inr dbuf"
    and l: "fst (listFiles fl) =
        (if imgArray fl ! 3584 < 0xe5 \<and> imgArray fl ! 3584 \<noteq> 0 then Inl NotOberonFormat
         else listFiles_loop fl dbuf 7 1 [])"
    by blast
  have "readDirBlock fl (of_nat (7 + 0)) = Inr (map (dirSlot fl) [16 * 0..<16 * 0 + 16])"
    using len by (intro readDirBlock_dirSlot) simp_all
  with r have d: "dbuf = map (dirSlot fl) [16 * 0..<16 * 0 + 16]"
    by simp
  have "listFiles_loop fl (map (dirSlot fl) [16 * 0..<16 * 0 + 16]) (of_nat (7 + 0)) 1 []
      = Inr ([] @ takeWhile (\<lambda>fd. \<not> isTerminator fd) (map (dirSlot fl) [16 * 0 + 1..<16 * k]))"
    using assms(1,2,3,7) by (intro listFiles_loop_enum) simp_all
  then have "listFiles_loop fl dbuf 7 1 []
      = Inr (takeWhile (\<lambda>fd. \<not> isTerminator fd) (map (dirSlot fl) [1..<16 * k]))"
    unfolding d by simp
  with l assms(6) show ?thesis
    by (auto simp: not_less)
qed

text \<open>
  C6: for every image passing the header and volume-label checks, \<^verbatim>\<open>listFiles\<close> returns
  the records of the directory region in on-disk order, from the second slot of block 7
  on, up to and excluding the first record whose first name byte is 0 or \<open>0xE5\<close>; the
  slots run through the blocks, 16 to a block. Here \<open>k\<close> is a number of directory blocks
  that lie within the image slice: when all seven blocks 7 to 13 do (\<open>k = 7\<close>) and none of
  the 111 slots is a terminator, enumeration stops at the end of block 13 without error
  and returns all of them; an image with fewer directory blocks is covered when a
  terminator occurs in the blocks it has.
\<close>

theorem listFiles_enumeration:
  assumes "1 \<le> k" "k \<le> 7" "(7 + k) * 512 \<le> length (imgArray fl)"
    and "imgArray fl ! 21 = 0xf9 \<or> imgArray fl ! 21 = 0xe9"
    and "imgArray fl ! 3595 = 8"
    and "imgArray fl ! 3584 = 0 \<or> 0xe5 \<le> imgArray fl ! 3584"
    and "k = 7 \<or> (\<exists>n. 1 \<le> n \<and> n < 16 * k \<and> isTerminator (dirSlot fl n))"
  shows "fst (listFiles fl)
       = Inr (takeWhile (\<lambda>fd. \<not> isTerminator fd) (map (dirSlot fl) [1..<16 * k]))"
  using assms by (rule listFiles_enum)

theorem listFiles_enumeration_witness:
  "(7 + 1) * 512 \<le> length (imgArray \<lparr>img = (replicate 4096 0)[21 := 0xf9, 3595 := 8, 3616 := 0x41],
          img_spare = [], fat = replicate 720 0\<rparr>)
   \<and> imgArray \<lparr>img = (replicate 4096 0)[21 := 0xf9, 3595 := 8, 3616 := 0x41],
          img_spare = [], fat = replicate 720 0\<rparr> ! 21 = 0xf9
   \<and> imgArray \<lparr>img = (replicate 4096 0)[21 := 0xf9, 3595 := 8, 3616 := 0x41],
          img_spare = [], fat = replicate 720 0\<rparr> ! 3595 = 8
   \<and> imgArray \<lparr>img = (replicate 4096 0)[21 := 0xf9, 3595 := 8, 3616 := 0x41],
          img_spare = [], fat = replicate 720 0\<rparr> ! 3584 = 0
   \<and> isTerminator (dirSlot \<lparr>img = (replicate 4096 0)[21 := 0xf9, 3595 := 8, 3616 := 0x41],
          img_spare = [], fat = replicate 720 0\<rparr> 2)
   \<and> fst (listFiles \<lparr>img = (replicate 4096 0)[21 := 0xf9, 3595 := 8, 3616 := 0x41],
          img_spare = [], fat = replicate 720 0\<rparr>)
       = Inr [dirSlot \<lparr>img = (replicate 4096 0)[21 := 0xf9, 3595 := 8, 3616 := 0x41],
          img_spare = [], fat = replicate 720 0\<rparr> 1]
   \<and> (7 + 7) * 512 \<le> length (imgArray \<lparr>img = (replicate 7168 0x41)[21 := 0xf9, 3584 := 0xe5, 3595 := 8],
          img_spare = [], fat = replicate 720 0\<rparr>)
   \<and> fst (listFiles \<lparr>img = (replicate 7168 0x41)[21 := 0xf9, 3584 := 0xe5, 3595 := 8],
          img_spare = [], fat = replicate 720 0\<rparr>)
       = Inr (map (dirSlot \<lparr>img = (replicate 7168 0x41)[21 := 0xf9, 3584 := 0xe5, 3595 := 8],
          img_spare = [], fat = replicate 720 0\<rparr>) [1..<112])"
proof -
  let ?fl = "\<lparr>img = (replicate 4096 0)[21 := 0xf9, 3595 := 8, 3616 := 0x41],
          img_spare = [], fat = replicate 720 0\<rparr>"
  have a: "imgArray ?fl = (replicate 4096 0)[21 := 0xf9, 3595 := 8, 3616 := 0x41]"
    by (simp add: imgArray_def)
  have t1: "\<not> isTerminator (dirSlot ?fl 1)" and t2: "isTerminator (dirSlot ?fl 2)"
    by (simp_all add: isTerminator_dirSlot a)
  have h: "(1 :: nat) \<le> 1" "(1 :: nat) \<le> 7" "(7 + 1) * 512 \<le> length (imgArray ?fl)"
    "imgArray ?fl ! 21 = 0xf9 \<or> imgArray ?fl ! 21 = 0xe9" "imgArray ?fl ! 3595 = 8"
    "imgArray ?fl ! 3584 = 0 \<or> 0xe5 \<le> imgArray ?fl ! 3584"
    by (simp_all add: a)
  have e: "1 = 7 \<or> (\<exists>n. 1 \<le> n \<and> n < 16 * 1 \<and> isTerminator (dirSlot ?fl n))"
    using t2 by (intro disjI2 exI [of _ 2]) simp
  have u: "[1..<16 * 1] = 1 # 2 # [3..<16]"
    by (simp add: upt_conv_Cons)
  from listFiles_enumeration [OF h e] t1 t2 have one: "fst (listFiles ?fl) = Inr [dirSlot ?fl 1]"
    unfolding u by simp
  let ?full = "\<lparr>img = (replicate 7168 0x41)[21 := 0xf9, 3584 := 0xe5, 3595 := 8],
          img_spare = [], fat = replicate 720 0\<rparr>"
  have b: "imgArray ?full = (replicate 7168 0x41)[21 := 0xf9, 3584 := 0xe5, 3595 := 8]"
    by (simp add: imgArray_def)
  have t: "\<not> isTerminator (dirSlot ?full n)" if "1 \<le> n" "n < 112" for n
  proof -
    have "3584 + 32 * n + 32 \<le> length (imgArray ?full)"
      using that by (simp add: b)
    moreover have "3584 + 32 * n \<noteq> 21" "3584 + 32 * n \<noteq> 3584" "3584 + 32 * n \<noteq> 3595"
      using that by presburger+
    moreover have "3584 + 32 * n < 7168"
      using that by simp
    ultimately show ?thesis
      by (simp add: isTerminator_dirSlot b)
  qed
  have "fst (listFiles ?full)
       = Inr (takeWhile (\<lambda>fd. \<not> isTerminator fd) (map (dirSlot ?full) [1..<16 * 7]))"
    by (rule listFiles_enumeration) (simp_all add: b)
  moreover have "takeWhile (\<lambda>fd. \<not> isTerminator fd) (map (dirSlot ?full) [1..<16 * 7])
      = map (dirSlot ?full) [1..<16 * 7]"
    unfolding takeWhile_eq_all_conv using t by auto
  ultimately have full: "fst (listFiles ?full) = Inr (map (dirSlot ?full) [1..<112])"
    by simp
  have "(7 + 7) * 512 \<le> length (imgArray ?full)"
    by (simp add: b)
  with one full t2 h show ?thesis
    by (simp add: a del: upt.simps)
qed

section \<open>Frame: what listFiles and readFile leave unchanged\<close>

lemma listFiles_snd: "snd (listFiles fl) = fl"
  by (simp add: listFiles_def Let_def split: sum.splits)

lemma readFile_snd: "snd (readFile fl fd) = fl"
  by (simp add: readFile_def Let_def split: sum.splits)

text \<open>
  C9: neither \<^verbatim>\<open>listFiles\<close> nor \<^verbatim>\<open>readFile\<close> changes the floppy: the floppy a call leaves
  is the floppy it was given, image bytes and allocation table included, so a second call
  of \<^verbatim>\<open>listFiles\<close>, or of \<^verbatim>\<open>readFile\<close> on the same entry, on the floppy left by the
  first returns what the first returned, and neither operation changes what the other
  returns.
\<close>

theorem listFiles_readFile_frame:
  "snd (listFiles fl) = fl \<and> snd (readFile fl fd) = fl
   \<and> img (snd (listFiles fl)) = img fl \<and> fat (snd (listFiles fl)) = fat fl
   \<and> img (snd (readFile fl fd)) = img fl \<and> fat (snd (readFile fl fd)) = fat fl
   \<and> listFiles (snd (listFiles fl)) = listFiles fl
   \<and> readFile (snd (readFile fl fd)) fd = readFile fl fd
   \<and> listFiles (snd (readFile fl fd)) = listFiles fl
   \<and> readFile (snd (listFiles fl)) fd = readFile fl fd"
  by (simp add: listFiles_snd readFile_snd)

theorem listFiles_readFile_frame_witness:
  "snd (listFiles \<lparr>img = (replicate 4096 0)[21 := 0xf9, 3595 := 8, 3616 := 0x41],
          img_spare = [], fat = replicate 720 0\<rparr>)
     = \<lparr>img = (replicate 4096 0)[21 := 0xf9, 3595 := 8, 3616 := 0x41],
          img_spare = [], fat = replicate 720 0\<rparr>
   \<and> snd (readFile \<lparr>img = (replicate 4096 0)[21 := 0xf9, 3595 := 8, 3616 := 0x41],
          img_spare = [], fat = replicate 720 0\<rparr>
          \<lparr>name = replicate 22 0, time = 0, date = 0, head = 0, size = 5\<rparr>)
     = \<lparr>img = (replicate 4096 0)[21 := 0xf9, 3595 := 8, 3616 := 0x41],
          img_spare = [], fat = replicate 720 0\<rparr>"
  using listFiles_readFile_frame [of "\<lparr>img = (replicate 4096 0)[21 := 0xf9, 3595 := 8, 3616 := 0x41],
          img_spare = [], fat = replicate 720 0\<rparr>"
      "\<lparr>name = replicate 22 0, time = 0, date = 0, head = 0, size = 5\<rparr>"]
  by simp

section \<open>Further properties\<close>

lemma fields_dirSlot:
  assumes "3584 + 32 * n + 32 \<le> length (imgArray fl)"
  shows "name (dirSlot fl n) = take 22 (drop (3584 + 32 * n) (imgArray fl))"
    and "head (dirSlot fl n) = push_bit 8 (ucast (imgArray fl ! (3584 + 32 * n + 27)))
            OR ucast (imgArray fl ! (3584 + 32 * n + 26))"
    and "size (dirSlot fl n) = push_bit 24 (ucast (imgArray fl ! (3584 + 32 * n + 31)))
            OR push_bit 16 (ucast (imgArray fl ! (3584 + 32 * n + 30)))
            OR push_bit 8 (ucast (imgArray fl ! (3584 + 32 * n + 29)))
            OR ucast (imgArray fl ! (3584 + 32 * n + 28))"
proof -
  have "n * 32 + 31 < length (drop 3584 (imgArray fl))"
    using assms(1) by simp
  with assms show "name (dirSlot fl n) = take 22 (drop (3584 + 32 * n) (imgArray fl))"
    and "head (dirSlot fl n) = push_bit 8 (ucast (imgArray fl ! (3584 + 32 * n + 27)))
            OR ucast (imgArray fl ! (3584 + 32 * n + 26))"
    and "size (dirSlot fl n) = push_bit 24 (ucast (imgArray fl ! (3584 + 32 * n + 31)))
            OR push_bit 16 (ucast (imgArray fl ! (3584 + 32 * n + 30)))
            OR push_bit 8 (ucast (imgArray fl ! (3584 + 32 * n + 29)))
            OR ucast (imgArray fl ! (3584 + 32 * n + 28))"
    by (simp_all add: dirSlot_def fileDescFromBytes_def Let_def ac_simps)
qed

lemma scenario_slot1:
  "name (dirSlot \<lparr>img = scenarioImage, img_spare = [], fat = replicate 720 0\<rparr> 1)
     = [0x54, 0x45, 0x53, 0x54, 0x2e, 0x54, 0x58, 0x54] @ replicate 14 0"
  "head (dirSlot \<lparr>img = scenarioImage, img_spare = [], fat = replicate 720 0\<rparr> 1) = 0"
  "size (dirSlot \<lparr>img = scenarioImage, img_spare = [], fat = replicate 720 0\<rparr> 1) = 5"
  by (simp_all add: fields_dirSlot imgArray_def scenarioImage_def nth_append)


lemma nameAsString_scenario:
  assumes "name fd = [0x54, 0x45, 0x53, 0x54, 0x2e, 0x54, 0x58, 0x54] @ replicate 14 0"
  shows "nameAsString fd = [0x54, 0x45, 0x53, 0x54, 0x2e, 0x54, 0x58, 0x54]"
proof -
  have "nameAsString_loop fd 0 = 8"
    by (simp add: nameAsString_loop.simps [of fd] assms)
  then show ?thesis
    by (simp add: nameAsString_def assms)
qed

text \<open>
  The end-to-end scenario of the spec (section 8): on the crafted image, whatever the
  allocation table holds, \<^verbatim>\<open>listFiles\<close> returns one entry, the record of slot 1, named
  \<^verbatim>\<open>TEST.TXT\<close> with \<open>size = 5\<close>, and \<^verbatim>\<open>readFile\<close> on that entry returns exactly the five
  bytes \<^verbatim>\<open>hello\<close>.
\<close>

theorem scenario_end_to_end:
  "fst (listFiles \<lparr>img = scenarioImage, img_spare = [], fat = t\<rparr>)
     = Inr [dirSlot \<lparr>img = scenarioImage, img_spare = [], fat = t\<rparr> 1]
   \<and> nameAsString (dirSlot \<lparr>img = scenarioImage, img_spare = [], fat = t\<rparr> 1)
     = [0x54, 0x45, 0x53, 0x54, 0x2e, 0x54, 0x58, 0x54]
   \<and> size (dirSlot \<lparr>img = scenarioImage, img_spare = [], fat = t\<rparr> 1) = 5
   \<and> fst (readFile \<lparr>img = scenarioImage, img_spare = [], fat = t\<rparr>
            (dirSlot \<lparr>img = scenarioImage, img_spare = [], fat = t\<rparr> 1))
     = Inr [0x68, 0x65, 0x6c, 0x6c, 0x6f]"
proof -
  let ?fl = "\<lparr>img = scenarioImage, img_spare = [], fat = t\<rparr>"
  have a: "imgArray ?fl = scenarioImage"
    by (simp add: imgArray_def)
  have len: "length scenarioImage = 6144"
    by (simp add: scenarioImage_def)
  have nm: "name (dirSlot ?fl 1) = [0x54, 0x45, 0x53, 0x54, 0x2e, 0x54, 0x58, 0x54] @ replicate 14 0"
    and hd: "head (dirSlot ?fl 1) = 0" and sz: "size (dirSlot ?fl 1) = 5"
    by (simp_all add: fields_dirSlot imgArray_def scenarioImage_def nth_append)
  have t1: "\<not> isTerminator (dirSlot ?fl 1)" and t2: "isTerminator (dirSlot ?fl 2)"
    by (simp_all add: isTerminator_dirSlot a len) (simp_all add: scenarioImage_def nth_append)
  have e: "1 = 7 \<or> (\<exists>n. 1 \<le> n \<and> n < 16 * 1 \<and> isTerminator (dirSlot ?fl n))"
    using t2 by (intro disjI2 exI [of _ 2]) simp
  have "fst (listFiles ?fl)
       = Inr (takeWhile (\<lambda>fd. \<not> isTerminator fd) (map (dirSlot ?fl) [1..<16 * 1]))"
    using e by (rule listFiles_enum [rotated -1]) (simp_all add: a len, simp_all add: scenarioImage_def nth_append)
  moreover have "[1..<16 * 1] = 1 # 2 # [3..<16]"
    by (simp add: upt_conv_Cons)
  ultimately have l: "fst (listFiles ?fl) = Inr [dirSlot ?fl 1]"
    using t1 t2 by simp
  have g: "getBlocks ?fl 10 2 = Inr (take 1024 (drop 5120 scenarioImage))"
    by (simp add: getBlocks_def a len)
  have "readFile_loop ?fl [] 5 0 (take 1024 (drop 5120 scenarioImage))
      = Inr [0x68, 0x65, 0x6c, 0x6c, 0x6f]"
    by (subst readFile_loop.simps) (simp add: len, simp add: scenarioImage_def)
  with g hd sz have r: "fst (readFile ?fl (dirSlot ?fl 1)) = Inr [0x68, 0x65, 0x6c, 0x6c, 0x6f]"
    by (simp add: readFile_def Let_def)
  from l r sz nameAsString_scenario [OF nm] show ?thesis
    by simp
qed

text \<open>
  For every image that holds blocks 0 and 7 and passes the media-descriptor check, if
  byte 11 of the first record of block 7 is not the volume-label marker 8,
  \<^verbatim>\<open>listFiles\<close> fails with "Block 7 does not contain a valid volume label" (the spec's
  \<open>CorruptDirectory\<close>).
\<close>

theorem listFiles_no_volume_label:
  assumes "4096 \<le> length (imgArray fl)"
    and "imgArray fl ! 21 = 0xf9 \<or> imgArray fl ! 21 = 0xe9"
    and "imgArray fl ! 3595 \<noteq> 8"
  shows "fst (listFiles fl) = Inl NoVolumeLabel"
proof -
  have b0: "getBlock fl 0 = Inr (take 512 (imgArray fl))"
    using assms(1) by (intro getBlock_0) simp
  have "readDirBlock fl (of_nat (7 + 0)) = Inr (map (dirSlot fl) [16 * 0..<16 * 0 + 16])"
    using assms(1) by (intro readDirBlock_dirSlot) simp_all
  then have r: "readDirBlock fl 7 = Inr (map (dirSlot fl) [0..<16])"
    by simp
  have n: "name (dirSlot fl 0) ! 11 = imgArray fl ! 3595"
    using name_dirSlot [of 0 fl 11] assms(1) by simp
  have d0: "map (dirSlot fl) [0..<16] ! 0 = dirSlot fl 0"
    by (simp add: upt_conv_Cons)
  have l21: "21 < length (imgArray fl)"
    using assms(1) by simp
  show ?thesis
    using assms(2,3) n l21 d0 by (auto simp add: listFiles_def b0 r Let_def simp del: upt.simps)
qed

theorem listFiles_no_volume_label_witness:
  "4096 \<le> length (imgArray \<lparr>img = (replicate 4096 0)[21 := 0xf9], img_spare = [], fat = replicate 720 0\<rparr>)
   \<and> imgArray \<lparr>img = (replicate 4096 0)[21 := 0xf9], img_spare = [], fat = replicate 720 0\<rparr> ! 21 = 0xf9
   \<and> imgArray \<lparr>img = (replicate 4096 0)[21 := 0xf9], img_spare = [], fat = replicate 720 0\<rparr> ! 3595 \<noteq> 8
   \<and> fst (listFiles \<lparr>img = (replicate 4096 0)[21 := 0xf9], img_spare = [], fat = replicate 720 0\<rparr>)
       = Inl NoVolumeLabel"
  using listFiles_no_volume_label [of "\<lparr>img = (replicate 4096 0)[21 := 0xf9], img_spare = [],
      fat = replicate 720 0\<rparr>"]
  by (simp add: imgArray_def)

text \<open>
  For every directory entry whose size field is negative, \<^verbatim>\<open>readFile\<close> panics: the
  first unit cannot be read, or the slice expression \<^verbatim>\<open>buf[0:remaining]\<close> is out of
  range.
\<close>

theorem readFile_negative_size:
  assumes "sint (size fd) < 0"
  shows "fst (readFile fl fd) = Inl Panic"
proof -
  from assms have nz: "size fd \<noteq> 0"
    by auto
  show ?thesis
  proof (cases "getBlocks fl (10 + 2 * scast (head fd)) 2")
    case (Inl e)
    with nz getBlocks_Inl [OF Inl] show ?thesis
      by (simp add: readFile_def Let_def)
  next
    case (Inr buf)
    have "readFile_loop fl [] (size fd) (scast (head fd)) buf = Inl Panic"
      using assms by (subst readFile_loop.simps) simp
    with nz Inr show ?thesis
      by (simp add: readFile_def Let_def)
  qed
qed

theorem readFile_negative_size_witness:
  "sint (size \<lparr>name = replicate 22 0, time = 0, date = 0, head = 0, size = - 1\<rparr>) < 0
   \<and> fst (readFile \<lparr>img = replicate 6144 7, img_spare = [], fat = replicate 720 0\<rparr>
          \<lparr>name = replicate 22 0, time = 0, date = 0, head = 0, size = - 1\<rparr>) = Inl Panic"
  using readFile_negative_size [of "\<lparr>name = replicate 22 0, time = 0, date = 0, head = 0, size = - 1\<rparr>"
      "\<lparr>img = replicate 6144 7, img_spare = [], fat = replicate 720 0\<rparr>"]
  by simp


lemma readFile_loop_content:
  assumes "readFile_loop fl res r i buf = Inr data" "getBlocks fl (10 + 2 * i) 2 = Inr buf"
  shows "data = res @ take (nat (sint r)) (chainBytes fl (Suc (nat (sint r - 1) div 1024)) i)"
  using assms
proof (induction fl res r i buf rule: readFile_loop.induct)
  case (1 fl res remaining i buf)
  have lb: "length buf = 1024"
    using "1.prems"(2) by (rule getBlocks_2_length)
  show ?case
  proof (cases "1024 < sint remaining")
    case False
    with "1.prems"(1) have "data = res @ take (nat (sint remaining)) buf"
      by (subst (asm) readFile_loop.simps) (auto split: if_splits)
    moreover from False have "nat (sint remaining - 1) div 1024 = 0"
      by simp
    moreover from False lb have "nat (sint remaining) \<le> length buf"
      by simp
    ultimately show ?thesis
      using "1.prems"(2) by simp
  next
    case True
    with "1.prems"(1) obtain i' buf' where f: "fatAt fl i = Inr i'"
      and g: "getBlocks fl (10 + 2 * i') 2 = Inr buf'"
      and r: "readFile_loop fl (res @ buf) (remaining - 1024) i' buf' = Inr data"
      by (subst (asm) readFile_loop.simps) (auto split: sum.splits)
    from f have i': "i' = fat fl ! nat (sint i)"
      by (auto simp: fatAt_def split: if_splits)
    let ?k = "nat (sint remaining - 1024 - 1) div 1024"
    from "1.IH" [OF True f g r g]
    have "data = (res @ buf) @ take (nat (sint remaining - 1024)) (chainBytes fl (Suc ?k) i')"
      using True by (simp add: sint_minus_1024)
    moreover have "take (nat (sint remaining)) (chainBytes fl (Suc (Suc ?k)) i)
        = buf @ take (nat (sint remaining - 1024)) (chainBytes fl (Suc ?k) i')"
    proof -
      have "chainBytes fl (Suc (Suc ?k)) i = buf @ chainBytes fl (Suc ?k) i'"
        unfolding chainBytes.simps(2) [of fl "Suc ?k" i] "1.prems"(2) i' by (simp only: sum.sel)
      moreover have "nat (sint remaining) - 1024 = nat (sint remaining - 1024)"
        using True by simp
      moreover have "\<not> nat (sint remaining) \<le> 1024"
        using True by simp
      ultimately show ?thesis
        using lb by (simp del: chainBytes.simps)
    qed
    ultimately show ?thesis
      unfolding units_step [OF True] by simp
  qed
qed

text \<open>
  Whenever \<^verbatim>\<open>readFile\<close> returns, its result is the content of the entry: the first
  \<open>size\<close> bytes of the \<open>ceil(size / 1024)\<close> allocation units of the chain that starts at
  \<open>head\<close>.
\<close>

theorem readFile_content:
  assumes "fst (readFile fl fd) = Inr data"
  shows "data = take (nat (sint (size fd)))
                  (chainBytes fl ((nat (sint (size fd)) + 1023) div 1024) (scast (head fd)))"
proof (cases "size fd = 0")
  case True
  with assms show ?thesis
    by (simp add: readFile_def)
next
  case False
  with assms obtain buf where g: "getBlocks fl (10 + 2 * scast (head fd)) 2 = Inr buf"
    and r: "readFile_loop fl [] (size fd) (scast (head fd)) buf = Inr data"
    by (auto simp: readFile_def Let_def split: sum.splits)
  have "int (length data) = sint (size fd)"
    using assms by (rule readFile_length)
  with False have p: "0 < sint (size fd)"
    by (intro size_pos) simp_all
  from readFile_loop_content [OF r g] show ?thesis
    unfolding ceil_1024 [OF p] by simp
qed

theorem readFile_content_witness:
  "fst (readFile \<lparr>img = replicate 6144 7, img_spare = [], fat = replicate 720 0\<rparr>
      \<lparr>name = replicate 22 0, time = 0, date = 0, head = 0, size = 3000\<rparr>) = Inr (replicate 3000 7)
   \<and> replicate 3000 7 = take 3000
        (chainBytes \<lparr>img = replicate 6144 7, img_spare = [], fat = replicate 720 0\<rparr> 3 0)"
  using readFile_content [OF readFile_cyclic_chain(2)] readFile_cyclic_chain(2)
  by simp

text \<open>
  A call of \<^verbatim>\<open>readFile\<close> that returns has asked for one allocation unit per 1024
  bytes of its result, rounded up.
\<close>

theorem readFile_units_of_result:
  assumes "fst (readFile fl fd) = Inr data"
  shows "readFile_units fl fd = (length data + 1023) div 1024"
  using assms by (rule readFile_units_exact)

theorem readFile_units_of_result_witness:
  "fst (readFile \<lparr>img = replicate 6144 7, img_spare = [], fat = replicate 720 0\<rparr>
      \<lparr>name = replicate 22 0, time = 0, date = 0, head = 0, size = 3000\<rparr>) = Inr (replicate 3000 7)
   \<and> readFile_units \<lparr>img = replicate 6144 7, img_spare = [], fat = replicate 720 0\<rparr>
      \<lparr>name = replicate 22 0, time = 0, date = 0, head = 0, size = 3000\<rparr> = 3"
  using readFile_units_of_result [OF readFile_cyclic_chain(2)] readFile_cyclic_chain(2)
  by simp

end
